theory Spec2Isabelle
  imports Main
begin

section \<open>pgxscan: the name normalizer\<close>

text \<open>
  A Go string is a sequence of bytes; it is modelled as \<^typ>\<open>string\<close>, a list of
  8-bit characters. The character classes are those of the two regular expressions of
  \<^verbatim>\<open>pgxscan.go\<close>: \<^verbatim>\<open>[A-Z]\<close>, \<^verbatim>\<open>[a-z]\<close>, \<^verbatim>\<open>[a-z0-9]\<close> and \<^verbatim>\<open>.\<close> (any character
  but the line feed).
\<close>

definition isUpper :: "char \<Rightarrow> bool" where
  "isUpper c \<longleftrightarrow> 65 \<le> (of_char c :: nat) \<and> (of_char c :: nat) \<le> 90"

definition isLower :: "char \<Rightarrow> bool" where
  "isLower c \<longleftrightarrow> 97 \<le> (of_char c :: nat) \<and> (of_char c :: nat) \<le> 122"

definition isDigit :: "char \<Rightarrow> bool" where
  "isDigit c \<longleftrightarrow> 48 \<le> (of_char c :: nat) \<and> (of_char c :: nat) \<le> 57"

definition isLowerOrDigit :: "char \<Rightarrow> bool" where
  "isLowerOrDigit c \<longleftrightarrow> isLower c \<or> isDigit c"

definition isAnyChar :: "char \<Rightarrow> bool" where
  "isAnyChar c \<longleftrightarrow> (of_char c :: nat) \<noteq> 10"

text \<open>
  \<^verbatim>\<open>matchFirstCap.ReplaceAllString(str, "${1}_${2}")\<close> with
  \<^verbatim>\<open>matchFirstCap = (.)([A-Z][a-z]+)\<close>. Go finds the matches from left to right, each
  search starting where the previous match ended, and copies the text between matches.
  A match at the head of \<open>c # u # l # rest\<close> needs \<open>c\<close> for the dot, \<open>u\<close> in
  \<^verbatim>\<open>[A-Z]\<close> and \<open>l\<close> in \<^verbatim>\<open>[a-z]\<close>; the greedy \<^verbatim>\<open>[a-z]+\<close> then takes the whole run
  of lowercase letters. The replacement is group 1, an underscore, group 2.
\<close>

function replaceFirstCap :: "string \<Rightarrow> string" where
  "replaceFirstCap (c # u # l # rest) =
     (if isAnyChar c \<and> isUpper u \<and> isLower l
      then c # CHR ''_'' # u # takeWhile isLower (l # rest)
             @ replaceFirstCap (dropWhile isLower (l # rest))
      else c # replaceFirstCap (u # l # rest))"
| "replaceFirstCap [c, u] = [c, u]"
| "replaceFirstCap [c] = [c]"
| "replaceFirstCap [] = []"
  by pat_completeness auto
termination
proof (relation "measure length")
  show "wf (measure length)" by simp
next
  fix c u l :: char and rest :: string
  assume "isAnyChar c \<and> isUpper u \<and> isLower l"
  have "length (dropWhile isLower (l # rest)) \<le> length (l # rest)"
    by (rule length_dropWhile_le)
  then show "(dropWhile isLower (l # rest), c # u # l # rest) \<in> measure length"
    by simp
next
  fix c u l :: char and rest :: string
  show "(u # l # rest, c # u # l # rest) \<in> measure length"
    by simp
qed

text \<open>
  \<^verbatim>\<open>matchAllCap.ReplaceAllString(snake, "${1}_${2}")\<close> with
  \<^verbatim>\<open>matchAllCap = ([a-z0-9])([A-Z])\<close>: a match is two characters long, and the search
  goes on after it.
\<close>

fun replaceAllCap :: "string \<Rightarrow> string" where
  "replaceAllCap (c # u # rest) =
     (if isLowerOrDigit c \<and> isUpper u
      then c # CHR ''_'' # u # replaceAllCap rest
      else c # replaceAllCap (u # rest))"
| "replaceAllCap [c] = [c]"
| "replaceAllCap [] = []"

text \<open>
  \<^verbatim>\<open>strings.ToLower\<close> on a string of ASCII bytes maps \<^verbatim>\<open>A-Z\<close> to \<^verbatim>\<open>a-z\<close> byte by
  byte and leaves every other byte. (On bytes above 127 Go decodes UTF-8 and lowers
  Unicode letters; the model covers the ASCII behaviour, and every statement about
  \<open>toSnakeCase\<close> below is about ASCII input.)
\<close>

definition toLowerChar :: "char \<Rightarrow> char" where
  "toLowerChar c = (if isUpper c then char_of ((of_char c :: nat) + 32) else c)"

definition ToLower :: "string \<Rightarrow> string" where
  "ToLower s = map toLowerChar s"

definition toSnakeCase :: "string \<Rightarrow> string" where
  "toSnakeCase str = ToLower (replaceAllCap (replaceFirstCap str))"

subsection \<open>The normalizer as the specification words it\<close>

text \<open>
  The specification describes the result by its word boundaries: an underscore goes
  before a capital letter that follows a lowercase letter or a digit, and before the
  capital that starts a lowercase run when it follows an uppercase letter; then
  everything is lowercased. \<open>insertBoundaries prev s\<close> walks \<open>s\<close> with the character
  before it.
\<close>

definition isAlnum :: "char \<Rightarrow> bool" where
  "isAlnum c \<longleftrightarrow> isUpper c \<or> isLower c \<or> isDigit c"

definition isNormalizedChar :: "char \<Rightarrow> bool" where
  "isNormalizedChar c \<longleftrightarrow> isLower c \<or> isDigit c \<or> c = CHR ''_''"

fun startsLower :: "string \<Rightarrow> bool" where
  "startsLower [] = False"
| "startsLower (c # cs) = isLower c"

fun insertBoundaries :: "char \<Rightarrow> string \<Rightarrow> string" where
  "insertBoundaries prev [] = []"
| "insertBoundaries prev (c # cs) =
     (if isUpper c \<and> (isLowerOrDigit prev \<or> (isUpper prev \<and> startsLower cs))
      then CHR ''_'' # c # insertBoundaries c cs
      else c # insertBoundaries c cs)"

fun snakeCaseSpec :: "string \<Rightarrow> string" where
  "snakeCaseSpec [] = []"
| "snakeCaseSpec (c # cs) = ToLower (c # insertBoundaries c cs)"

text \<open>
  A capitalized word segment: a capital letter followed by at least one lowercase
  letter or digit.
\<close>

fun capitalizedWord :: "string \<Rightarrow> bool" where
  "capitalizedWord (u # l # r) = (isUpper u \<and> list_all isLowerOrDigit (l # r))"
| "capitalizedWord [u] = False"
| "capitalizedWord [] = False"

text \<open>\<^verbatim>\<open>strings.Join(elems, sep)\<close>.\<close>

fun Join :: "string list \<Rightarrow> string \<Rightarrow> string" where
  "Join [] sep = []"
| "Join [x] sep = x"
| "Join (x # y # ys) sep = x @ sep @ Join (y # ys) sep"

text \<open>
  Two scanners used in the proofs only. \<open>firstCapScan inrun prev s\<close> is what the first
  replacement writes for the rest \<open>s\<close> of its input, \<open>prev\<close> being the character before
  it and \<open>inrun\<close> telling that \<open>prev\<close> belongs to a match (so it cannot be the dot of
  the next one). \<open>allCapScan prev s\<close> is the same for the second replacement.
\<close>

fun firstCapScan :: "bool \<Rightarrow> char \<Rightarrow> string \<Rightarrow> string" where
  "firstCapScan inrun prev [] = []"
| "firstCapScan inrun prev (u # r) =
     (if inrun then u # firstCapScan (isLower u) u r
      else if isAnyChar prev \<and> isUpper u \<and> startsLower r
        then CHR ''_'' # u # firstCapScan True u r
        else u # firstCapScan False u r)"

fun allCapScan :: "char \<Rightarrow> string \<Rightarrow> string" where
  "allCapScan prev [] = []"
| "allCapScan prev (u # r) =
     (if isLowerOrDigit prev \<and> isUpper u
      then CHR ''_'' # u # allCapScan u r
      else u # allCapScan u r)"

section \<open>pgxscan: errors\<close>

text \<open>
  A Go \<^verbatim>\<open>error\<close> is \<^verbatim>\<open>nil\<close> or an error value: \<open>error option\<close>. The error values
  are those \<^verbatim>\<open>pgxscan.go\<close> makes and receives: the sentinel \<^verbatim>\<open>pgx.ErrNoRows\<close>, and
  the three error kinds of \<^verbatim>\<open>github.com/pkg/errors\<close>: \<^verbatim>\<open>fundamental\<close> (a message),
  \<^verbatim>\<open>withStack\<close> and \<^verbatim>\<open>withMessage\<close> (each around a cause). An error of the driver or
  of \<^verbatim>\<open>dbscan\<close> is any value of this type. Stack traces are not modelled.
\<close>

datatype error =
    ErrNoRows
  | fundamental string
  | withStack error
  | withMessage error string

fun New :: "string \<Rightarrow> error option" where
  "New message = Some (fundamental message)"

fun WithStack :: "error option \<Rightarrow> error option" where
  "WithStack None = None"
| "WithStack (Some err) = Some (withStack err)"

fun Wrap :: "error option \<Rightarrow> string \<Rightarrow> error option" where
  "Wrap None message = None"
| "Wrap (Some err) message = Some (withStack (withMessage err message))"

fun Unwrap :: "error \<Rightarrow> error option" where
  "Unwrap (withStack cause) = Some cause"
| "Unwrap (withMessage cause message) = Some cause"
| "Unwrap ErrNoRows = None"
| "Unwrap (fundamental message) = None"

text \<open>
  \<^verbatim>\<open>errors.Is(err, target)\<close> walks the chain of causes of \<open>err\<close> and compares each link
  with \<open>target\<close>. (Go compares the two error values with \<^verbatim>\<open>==\<close>; the only target used
  here is the sentinel \<^verbatim>\<open>pgx.ErrNoRows\<close>, a single value.)
\<close>

fun IsChain :: "error \<Rightarrow> error \<Rightarrow> bool" where
  "IsChain (withStack cause) target = (withStack cause = target \<or> IsChain cause target)"
| "IsChain (withMessage cause message) target =
     (withMessage cause message = target \<or> IsChain cause target)"
| "IsChain ErrNoRows target = (ErrNoRows = target)"
| "IsChain (fundamental message) target = (fundamental message = target)"

fun Is :: "error option \<Rightarrow> error option \<Rightarrow> bool" where
  "Is (Some err) (Some target) = IsChain err target"
| "Is err target = (err = target)"

text \<open>The chain of causes of an error, itself first: what the error wraps.\<close>

fun causes :: "error \<Rightarrow> error list" where
  "causes (withStack cause) = withStack cause # causes cause"
| "causes (withMessage cause message) = withMessage cause message # causes cause"
| "causes ErrNoRows = [ErrNoRows]"
| "causes (fundamental message) = [fundamental message]"

section \<open>pgxscan: the rows adapter, ScanOne and NotFound\<close>

text \<open>
  \<^verbatim>\<open>pgx.Rows\<close> is an interface of the driver; the adapter reads its field descriptions
  only. \<^verbatim>\<open>pgproto3.FieldDescription\<close> is the driver's record of a result column.
\<close>

record FieldDescription =
  Name_fd :: string
  TableOID :: nat
  TableAttributeNumber :: nat
  DataTypeOID :: nat
  DataTypeSize :: int
  TypeModifier :: int
  Format :: int

record Rows =
  FieldDescriptions :: "FieldDescription list"

record RowsAdapter =
  Rows :: Rows

definition NewRowsAdapter :: "Rows \<Rightarrow> RowsAdapter" where
  "NewRowsAdapter rows = \<lparr>Rows = rows\<rparr>"

text \<open>
  \<^verbatim>\<open>for i, fd := range ra.Rows.FieldDescriptions() { columns[i] = string(fd.Name) }\<close>:
  the loop, with the index \<open>i\<close> and the slice \<open>columns\<close> it writes.
\<close>

fun columnsLoop :: "nat \<Rightarrow> FieldDescription list \<Rightarrow> string list \<Rightarrow> string list" where
  "columnsLoop i [] columns = columns"
| "columnsLoop i (fd # fds) columns = columnsLoop (Suc i) fds (columns[i := Name_fd fd])"

definition Columns :: "RowsAdapter \<Rightarrow> string list \<times> error option" where
  "Columns ra =
     (let columns = replicate (length (FieldDescriptions (Rows ra))) ''''
      in (columnsLoop 0 (FieldDescriptions (Rows ra)) columns, None))"

text \<open>
  \<^verbatim>\<open>dbscan.ScanOne\<close> and \<^verbatim>\<open>dbscan.NotFound\<close> belong to the package \<^verbatim>\<open>dbscan\<close>; they are
  parameters: the error \<^verbatim>\<open>dbscan.ScanOne(dst, adapter)\<close> returns, and the predicate.
\<close>

definition ScanOne ::
  "('d \<Rightarrow> RowsAdapter \<Rightarrow> error option) \<Rightarrow> (error option \<Rightarrow> bool) \<Rightarrow> 'd \<Rightarrow> Rows \<Rightarrow> error option" where
  "ScanOne dbscan_ScanOne dbscan_NotFound dst rows =
     (let err = dbscan_ScanOne dst (NewRowsAdapter rows)
      in if dbscan_NotFound err then WithStack (Some ErrNoRows) else WithStack err)"

definition NotFound :: "error option \<Rightarrow> bool" where
  "NotFound err = Is err (Some ErrNoRows)"

text \<open>
  Two concrete parameters, for instances of \<open>ScanOne\<close>: a \<^verbatim>\<open>dbscan.ScanOne\<close> that
  returns a given error, and a \<^verbatim>\<open>dbscan.NotFound\<close> that is \<^verbatim>\<open>errors.Is\<close> against a
  sentinel of \<^verbatim>\<open>dbscan\<close>'s own.
\<close>

definition scanReturning :: "error option \<Rightarrow> unit \<Rightarrow> RowsAdapter \<Rightarrow> error option" where
  "scanReturning result dst ra = result"

definition sentinelNotFound :: "error option \<Rightarrow> bool" where
  "sentinelNotFound err = Is err (Some (fundamental ''scany: no row was found''))"

section \<open>pgxscan: Insert\<close>

text \<open>\<^verbatim>\<open>reflect.Kind\<close> and its \<^verbatim>\<open>String\<close> method.\<close>

datatype Kind =
    reflect_Invalid | reflect_Bool
  | reflect_Int | reflect_Int8 | reflect_Int16 | reflect_Int32 | reflect_Int64
  | reflect_Uint | reflect_Uint8 | reflect_Uint16 | reflect_Uint32 | reflect_Uint64
  | reflect_Uintptr
  | reflect_Float32 | reflect_Float64 | reflect_Complex64 | reflect_Complex128
  | reflect_Array | reflect_Chan | reflect_Func | reflect_Interface | reflect_Map
  | reflect_Ptr | reflect_Slice | reflect_String | reflect_Struct | reflect_UnsafePointer

fun Kind_String :: "Kind \<Rightarrow> string" where
  "Kind_String reflect_Invalid = ''invalid''"
| "Kind_String reflect_Bool = ''bool''"
| "Kind_String reflect_Int = ''int''"
| "Kind_String reflect_Int8 = ''int8''"
| "Kind_String reflect_Int16 = ''int16''"
| "Kind_String reflect_Int32 = ''int32''"
| "Kind_String reflect_Int64 = ''int64''"
| "Kind_String reflect_Uint = ''uint''"
| "Kind_String reflect_Uint8 = ''uint8''"
| "Kind_String reflect_Uint16 = ''uint16''"
| "Kind_String reflect_Uint32 = ''uint32''"
| "Kind_String reflect_Uint64 = ''uint64''"
| "Kind_String reflect_Uintptr = ''uintptr''"
| "Kind_String reflect_Float32 = ''float32''"
| "Kind_String reflect_Float64 = ''float64''"
| "Kind_String reflect_Complex64 = ''complex64''"
| "Kind_String reflect_Complex128 = ''complex128''"
| "Kind_String reflect_Array = ''array''"
| "Kind_String reflect_Chan = ''chan''"
| "Kind_String reflect_Func = ''func''"
| "Kind_String reflect_Interface = ''interface''"
| "Kind_String reflect_Map = ''map''"
| "Kind_String reflect_Ptr = ''ptr''"
| "Kind_String reflect_Slice = ''slice''"
| "Kind_String reflect_String = ''string''"
| "Kind_String reflect_Struct = ''struct''"
| "Kind_String reflect_UnsafePointer = ''unsafe.Pointer''"

text \<open>
  The \<^verbatim>\<open>reflect.Value\<close> of a struct field, as \<^verbatim>\<open>Insert\<close> reads it: its kind
  (\<^verbatim>\<open>value.Kind()\<close>) and the results of \<^verbatim>\<open>value.String()\<close>, \<^verbatim>\<open>value.Int()\<close> and
  \<^verbatim>\<open>value.Float()\<close>. \<^verbatim>\<open>Insert\<close> calls each of the three under the kinds it is defined
  for only (a string; a signed integer, as \<^verbatim>\<open>int64\<close>; a float, as \<^verbatim>\<open>float64\<close>, here
  of an abstract type \<open>'f\<close>: floating point is not modelled).
\<close>

record 'f Value =
  Value_Kind :: Kind
  Value_String :: string
  Value_Int :: int
  Value_Float :: 'f

text \<open>The kinds the \<^verbatim>\<open>switch\<close> of \<^verbatim>\<open>Insert\<close> has a case for.\<close>

definition supportedKind :: "Kind \<Rightarrow> bool" where
  "supportedKind k \<longleftrightarrow>
     k \<in> {reflect_String, reflect_Int, reflect_Int8, reflect_Int32, reflect_Int64,
          reflect_Float32, reflect_Float64}"

text \<open>
  A struct is the list of its fields in declaration order: \<^verbatim>\<open>reflect.StructField\<close>
  (name and tag; the tag as its key-value pairs, \<^verbatim>\<open>Tag.Lookup\<close> finding a key) with the
  field's value.
\<close>

record 'f StructField =
  Name :: string
  Tag :: "(string \<times> string) list"
  FieldValue :: "'f Value"

definition Lookup :: "(string \<times> string) list \<Rightarrow> string \<Rightarrow> string option" where
  "Lookup tag key = map_of tag key"

text \<open>\<^verbatim>\<open>strconv.FormatInt(i, 10)\<close>.\<close>

definition digitChar :: "nat \<Rightarrow> char" where
  "digitChar d = char_of (48 + d)"

fun formatNat :: "nat \<Rightarrow> string" where
  "formatNat n = (if n < 10 then [digitChar n] else formatNat (n div 10) @ [digitChar (n mod 10)])"

definition FormatInt :: "int \<Rightarrow> string" where
  "FormatInt i = (if i < 0 then CHR ''-'' # formatNat (nat (- i)) else formatNat (nat i))"

definition quote :: string where
  "quote = [CHR 0x27]"

text \<open>
  The \<^verbatim>\<open>switch value.Kind()\<close> of the loop body: the text of the value, or the error of
  the \<^verbatim>\<open>default\<close> case. \<open>fmtFloat\<close> is \<^verbatim>\<open>fmt.Sprintf("%f", _)\<close>.
\<close>

definition valueText :: "('f \<Rightarrow> string) \<Rightarrow> 'f Value \<Rightarrow> error option + string" where
  "valueText fmtFloat value =
     (case Value_Kind value of
        reflect_String \<Rightarrow> Inr (quote @ Value_String value @ quote)
      | reflect_Int \<Rightarrow> Inr (FormatInt (Value_Int value))
      | reflect_Int8 \<Rightarrow> Inr (FormatInt (Value_Int value))
      | reflect_Int32 \<Rightarrow> Inr (FormatInt (Value_Int value))
      | reflect_Int64 \<Rightarrow> Inr (FormatInt (Value_Int value))
      | reflect_Float64 \<Rightarrow> Inr (fmtFloat (Value_Float value))
      | reflect_Float32 \<Rightarrow> Inr (fmtFloat (Value_Float value))
      | _ \<Rightarrow> Inl (Wrap (New (''type: '' @ Kind_String (Value_Kind value) @ '' unsupported''))
                 ''scany: this type not yet supported''))"

definition columnName :: "'f StructField \<Rightarrow> string" where
  "columnName field =
     (case Lookup (Tag field) ''pgx'' of
        Some val \<Rightarrow> val
      | None \<Rightarrow> toSnakeCase (Name field))"

text \<open>
  The loop over the fields, with the two slices it appends to; it returns at the first
  field of an unsupported kind.
\<close>

fun insertLoop ::
  "('f \<Rightarrow> string) \<Rightarrow> 'f StructField list \<Rightarrow> string list \<Rightarrow> string list
     \<Rightarrow> error option + (string list \<times> string list)" where
  "insertLoop fmtFloat [] dbCols dbVals = Inr (dbCols, dbVals)"
| "insertLoop fmtFloat (field # rest) dbCols dbVals =
     (case valueText fmtFloat (FieldValue field) of
        Inl err \<Rightarrow> Inl err
      | Inr v \<Rightarrow> insertLoop fmtFloat rest (dbCols @ [columnName field]) (dbVals @ [v]))"

text \<open>
  \<open>Insert\<close> returns its error and the SQL statements it has passed to \<^verbatim>\<open>db.Query\<close>
  (\<open>Query\<close> gives the error of the call, the rows being dropped by \<^verbatim>\<open>Insert\<close>).
\<close>

definition Insert ::
  "(string \<Rightarrow> error option) \<Rightarrow> ('f \<Rightarrow> string) \<Rightarrow> 'f StructField list \<Rightarrow> string \<Rightarrow> string
     \<Rightarrow> error option \<times> string list" where
  "Insert Query fmtFloat data table additionalQuery =
     (case insertLoop fmtFloat data [] [] of
        Inl err \<Rightarrow> (err, [])
      | Inr (dbCols, dbVals) \<Rightarrow>
          (let sql = ''INSERT INTO '' @ table @ '' ('' @ Join dbCols '', '' @ '') VALUES (''
                       @ Join dbVals '', '' @ '') '' @ additionalQuery;
               err = Query sql
           in if err \<noteq> None then (Wrap err ''scany: insertion error'', [sql])
              else (WithStack err, [sql])))"

section \<open>dbscan: the mapping engine, modelled from the specification\<close>

text \<open>
  The package \<^verbatim>\<open>dbscan\<close> (the row scanner, the struct field index and the row
  materializer) is not among the source files; only its test file
  \<^verbatim>\<open>row_scanner_test.go\<close> is. The definitions of this section are modelled from the
  specification, sections 3, 4.3, 4.4, 4.5 and 7, and checked on the cases of the test
  file.
\<close>

subsection \<open>Struct shapes and the error taxonomy\<close>

text \<open>
  Modelled from the spec: the struct shape (the layout \<^verbatim>\<open>reflect\<close> gives in the missing
  \<^verbatim>\<open>dbscan\<close>). A member has a name, an optional explicit tag, is exported or not,
  embedded or not, and is a leaf, a struct or a pointer to a struct.
\<close>

datatype memberType =
    Leaf
  | StructType "member list"
  | PtrStructType "member list"
and member =
    Member string "string option" bool bool memberType

fun memberName :: "member \<Rightarrow> string" where
  "memberName (Member name tag exported embedded ty) = name"

fun memberTag :: "member \<Rightarrow> string option" where
  "memberTag (Member name tag exported embedded ty) = tag"

fun isExported :: "member \<Rightarrow> bool" where
  "isExported (Member name tag exported embedded ty) = exported"

fun isEmbedded :: "member \<Rightarrow> bool" where
  "isEmbedded (Member name tag exported embedded ty) = embedded"

fun typeOf :: "member \<Rightarrow> memberType" where
  "typeOf (Member name tag exported embedded ty) = ty"

text \<open>Modelled from the spec: the error taxonomy of section 7.\<close>

datatype scanError =
    InvalidDestination string
  | DuplicateColumnMapping string "nat list" "nat list"
  | UnmappedColumn string
  | DuplicateColumn string
  | InvalidScanRowCount nat
  | NotFoundError
  | TooManyRows
  | RowSourceError string

subsection \<open>The struct field index (section 4.3)\<close>

text \<open>
  Modelled from the spec: the resolution algorithm of the missing field index, depth
  first over the members in declaration order, carrying a prefix (initially empty) and
  the access path of the enclosing member. Step 1: the tag overrides the normalized
  member name, the tag \<^verbatim>\<open>-\<close> removes the member (and the subtree of an embedded one),
  and the key is \<^verbatim>\<open>prefix + "." + name\<close> under a non-empty prefix. Step 2: an
  unexported member is skipped. Step 3: an embedded struct or pointer to struct is
  entered, with the same prefix when it has no tag and with \<^verbatim>\<open>prefix + tag\<close> when it
  has one; a member that is not embedded is never entered and is a target as a whole.
\<close>

definition columnKey :: "string \<Rightarrow> string \<Rightarrow> string" where
  "columnKey prefix name = (if prefix = [] then name else prefix @ ''.'' @ name)"

definition memberColumn :: "string \<Rightarrow> string option \<Rightarrow> string" where
  "memberColumn name tag = (case tag of Some t \<Rightarrow> t | None \<Rightarrow> toSnakeCase name)"

definition childPrefix :: "string \<Rightarrow> string option \<Rightarrow> string" where
  "childPrefix prefix tag = (case tag of Some t \<Rightarrow> prefix @ t | None \<Rightarrow> prefix)"

fun resolveMembers :: "string \<Rightarrow> nat list \<Rightarrow> nat \<Rightarrow> member list \<Rightarrow> (string \<times> nat list) list"
  and resolveMember :: "string \<Rightarrow> nat list \<Rightarrow> nat \<Rightarrow> member \<Rightarrow> (string \<times> nat list) list"
  and resolveType ::
    "string \<Rightarrow> nat list \<Rightarrow> string \<Rightarrow> string option \<Rightarrow> bool \<Rightarrow> memberType \<Rightarrow> (string \<times> nat list) list"
  where
  "resolveMembers prefix path i [] = []"
| "resolveMembers prefix path i (m # ms) =
     resolveMember prefix path i m @ resolveMembers prefix path (Suc i) ms"
| "resolveMember prefix path i (Member name tag exported embedded ty) =
     (if \<not> exported then []
      else if tag = Some ''-'' then []
      else resolveType prefix (path @ [i]) name tag embedded ty)"
| "resolveType prefix path name tag embedded Leaf =
     [(columnKey prefix (memberColumn name tag), path)]"
| "resolveType prefix path name tag embedded (StructType ms) =
     (if embedded then resolveMembers (childPrefix prefix tag) path 0 ms
      else [(columnKey prefix (memberColumn name tag), path)])"
| "resolveType prefix path name tag embedded (PtrStructType ms) =
     (if embedded then resolveMembers (childPrefix prefix tag) path 0 ms
      else [(columnKey prefix (memberColumn name tag), path)])"

text \<open>
  Modelled from the spec: step 5 of the missing index construction. The entries are
  put into the index in order; a column name that is in it already is the fatal
  \<open>DuplicateColumnMapping\<close>, with the access path of the first member and that of the
  second.
\<close>

type_synonym fieldIndex = "(string \<times> nat list) list"

fun insertEntries :: "fieldIndex \<Rightarrow> (string \<times> nat list) list \<Rightarrow> scanError + fieldIndex" where
  "insertEntries index [] = Inr index"
| "insertEntries index ((column, path) # entries) =
     (case map_of index column of
        Some first \<Rightarrow> Inl (DuplicateColumnMapping column first path)
      | None \<Rightarrow> insertEntries (index @ [(column, path)]) entries)"

definition buildFieldIndex :: "member list \<Rightarrow> scanError + fieldIndex" where
  "buildFieldIndex ms = insertEntries [] (resolveMembers [] [] 0 ms)"

subsection \<open>Destinations and the row materializer (sections 3 and 4.4)\<close>

text \<open>
  Modelled from the spec: the destination values the missing materializer writes. A
  struct value is the list of its member values; a pointer member is nil or points to
  a struct value; a leaf holds the zero value of its type or a value \<open>Scalar v\<close> the
  row source has put there (\<open>'v\<close> is the type of native values).
\<close>

datatype 'v val =
    Zero
  | Scalar 'v
  | StructVal "'v val list"
  | NilPtr
  | Ptr "'v val"

text \<open>
  Modelled from the spec: the zero value of a member type, which a freshly allocated
  struct of the missing engine holds in every member (a pointer member is nil).
\<close>

fun zeroValue :: "memberType \<Rightarrow> 'v val"
  and zeroFields :: "member list \<Rightarrow> 'v val list" where
  "zeroValue Leaf = Zero"
| "zeroValue (StructType ms) = StructVal (zeroFields ms)"
| "zeroValue (PtrStructType ms) = NilPtr"
| "zeroFields [] = []"
| "zeroFields (Member name tag exported embedded ty # ms) = zeroValue ty # zeroFields ms"

text \<open>
  Modelled from the spec: writing one value through an access path (the missing
  receiver binding and its deferred commit). The last offset of the path selects the
  member that receives the value. An offset before it enters a struct member, or
  crosses a pointer member: a nil pointer is given a fresh zero struct then, and only
  then.
\<close>

fun writeField :: "member list \<Rightarrow> nat list \<Rightarrow> 'v \<Rightarrow> 'v val list \<Rightarrow> 'v val list" where
  "writeField ms [] v fs = fs"
| "writeField ms [i] v fs = fs[i := Scalar v]"
| "writeField ms (i # j # p) v fs =
     (if i < length ms \<and> i < length fs then
        (case typeOf (ms ! i) of
           Leaf \<Rightarrow> fs
         | StructType sub \<Rightarrow>
             (case fs ! i of
                StructVal gs \<Rightarrow> fs[i := StructVal (writeField sub (j # p) v gs)]
              | _ \<Rightarrow> fs)
         | PtrStructType sub \<Rightarrow>
             (case fs ! i of
                NilPtr \<Rightarrow> fs[i := Ptr (StructVal (writeField sub (j # p) v (zeroFields sub)))]
              | Ptr (StructVal gs) \<Rightarrow> fs[i := Ptr (StructVal (writeField sub (j # p) v gs))]
              | _ \<Rightarrow> fs))
      else fs)"

text \<open>Reading the member at an access path (for stating what a row has written).\<close>

fun readField :: "member list \<Rightarrow> nat list \<Rightarrow> 'v val list \<Rightarrow> 'v val option" where
  "readField ms [] fs = None"
| "readField ms [i] fs = (if i < length fs then Some (fs ! i) else None)"
| "readField ms (i # j # p) fs =
     (if i < length ms \<and> i < length fs then
        (case typeOf (ms ! i) of
           Leaf \<Rightarrow> None
         | StructType sub \<Rightarrow>
             (case fs ! i of StructVal gs \<Rightarrow> readField sub (j # p) gs | _ \<Rightarrow> None)
         | PtrStructType sub \<Rightarrow>
             (case fs ! i of Ptr (StructVal gs) \<Rightarrow> readField sub (j # p) gs | _ \<Rightarrow> None))
      else None)"

text \<open>
  Modelled from the spec: the three destination shapes of section 3, as the missing
  classifier hands them to the materializer.
\<close>

datatype 'v destination =
    StructDestination "member list" "'v val list"
  | MappingDestination "string \<rightharpoonup> 'v"
  | ScalarDestination "'v val"

text \<open>
  Modelled from the spec: the per-row checks and binding of the missing materializer.
  \<open>firstDuplicate\<close> finds the first column name that repeats an earlier one;
  \<open>bindColumns\<close> looks each column up in the index, in column order, and fails with
  \<open>UnmappedColumn\<close> at the first column without an access path.
\<close>

fun firstDuplicate :: "string list \<Rightarrow> string list \<Rightarrow> string option" where
  "firstDuplicate seen [] = None"
| "firstDuplicate seen (c # cs) =
     (if c \<in> set seen then Some c else firstDuplicate (seen @ [c]) cs)"

fun bindColumns :: "fieldIndex \<Rightarrow> string list \<Rightarrow> scanError + nat list list" where
  "bindColumns index [] = Inr []"
| "bindColumns index (c # cs) =
     (case map_of index c of
        None \<Rightarrow> Inl (UnmappedColumn c)
      | Some path \<Rightarrow>
          (case bindColumns index cs of
             Inl err \<Rightarrow> Inl err
           | Inr paths \<Rightarrow> Inr (path # paths)))"

text \<open>
  Modelled from the spec: the row binding of the missing materializer, the access
  paths paired with the values of the row in column order and written one after the
  other; and, for a mapping, one entry per column put into the destination.
\<close>

fun writeRow :: "member list \<Rightarrow> (nat list \<times> 'v) list \<Rightarrow> 'v val list \<Rightarrow> 'v val list" where
  "writeRow ms [] fs = fs"
| "writeRow ms ((path, v) # bindings) fs = writeRow ms bindings (writeField ms path v fs)"

fun insertRow :: "(string \<times> 'v) list \<Rightarrow> (string \<rightharpoonup> 'v) \<Rightarrow> (string \<rightharpoonup> 'v)" where
  "insertRow [] m = m"
| "insertRow ((c, v) # entries) m = insertRow entries (m(c \<mapsto> v))"

text \<open>
  Modelled from the spec: one-row materialization (the missing
  \<^verbatim>\<open>dbscan\<close> row materializer). \<open>row\<close> is what the row source puts into the
  receivers, one native value per column, in column order. The result is the error,
  the destination being left as it was, or the destination with the row in it.
\<close>

definition materialize ::
  "fieldIndex \<Rightarrow> string list \<Rightarrow> 'v list \<Rightarrow> 'v destination \<Rightarrow> scanError + 'v destination" where
  "materialize index columns row dst =
     (case firstDuplicate [] columns of
        Some c \<Rightarrow> Inl (DuplicateColumn c)
      | None \<Rightarrow>
          (case dst of
             StructDestination ms fs \<Rightarrow>
               (case bindColumns index columns of
                  Inl err \<Rightarrow> Inl err
                | Inr paths \<Rightarrow>
                    if length row \<noteq> length columns
                    then Inl (RowSourceError ''column count'')
                    else Inr (StructDestination ms (writeRow ms (zip paths row) fs)))
           | MappingDestination m \<Rightarrow>
               if length row \<noteq> length columns
               then Inl (RowSourceError ''column count'')
               else Inr (MappingDestination (insertRow (zip columns row) m))
           | ScalarDestination x \<Rightarrow>
               if length columns \<noteq> 1
               then Inl (InvalidScanRowCount (length columns))
               else (case row of
                       [v] \<Rightarrow> Inr (ScalarDestination (Scalar v))
                     | _ \<Rightarrow> Inl (RowSourceError ''column count''))))"

subsection \<open>The row scanner (section 4.5)\<close>

text \<open>
  Modelled from the spec: the state of the missing \<^verbatim>\<open>dbscan.RowScanner\<close>: started or
  not, and what the start hook has resolved (the cache). \<open>startCalls\<close> counts the
  invocations of the start hook; it is there to state that the hook runs once.
\<close>

record 'c RowScanner =
  started :: bool
  cache :: 'c
  startCalls :: nat

text \<open>
  Modelled from the spec: the constructor and the accessor \<^verbatim>\<open>Started\<close> of the missing
  scanner; a new scanner is \<^verbatim>\<open>NotStarted\<close> and has resolved nothing.
\<close>

definition NewRowScanner :: "'c \<Rightarrow> 'c RowScanner" where
  "NewRowScanner unresolved = \<lparr>started = False, cache = unresolved, startCalls = 0\<rparr>"

definition Started :: "'c RowScanner \<Rightarrow> bool" where
  "Started rs = started rs"

text \<open>
  Modelled from the spec: \<^verbatim>\<open>ScanRow\<close> of the missing scanner (\<^verbatim>\<open>DoScan\<close> in the test
  file). On \<^verbatim>\<open>NotStarted\<close> it invokes the start hook and goes to \<^verbatim>\<open>Started\<close>; in any
  state it then materializes the current row. It fails with what the start hook or the
  materializer produced. The transition is made at the first row, whether the hook
  fails or not (section 3: exactly once, on the first row processed; section 7:
  shape-level errors are detected once and are not re-checked per row). The start hook
  and the materializer are parameters (the hook is injectable): \<open>startFn\<close> gives
  its error, if any, and what it has resolved.
\<close>

definition ScanRow ::
  "('c \<Rightarrow> 'd \<Rightarrow> scanError option \<times> 'c) \<Rightarrow> ('c \<Rightarrow> 'r \<Rightarrow> 'd \<Rightarrow> scanError + 'd)
     \<Rightarrow> 'c RowScanner \<Rightarrow> 'd \<Rightarrow> 'r \<Rightarrow> (scanError + 'd) \<times> 'c RowScanner" where
  "ScanRow startFn materializeFn rs dst row =
     (if \<not> started rs then
        (let (err, resolved) = startFn (cache rs) dst;
             rs' = rs\<lparr>started := True, cache := resolved, startCalls := Suc (startCalls rs)\<rparr>
         in case err of
              Some e \<Rightarrow> (Inl e, rs')
            | None \<Rightarrow> (materializeFn resolved row dst, rs'))
      else (materializeFn (cache rs) row dst, rs))"

text \<open>
  A run of the scanner over rows, one \<open>ScanRow\<close> per row, whatever each returns (the
  caller going on after a failed row); it gives the results and the last state.
\<close>

fun scanRows ::
  "('c \<Rightarrow> 'd \<Rightarrow> scanError option \<times> 'c) \<Rightarrow> ('c \<Rightarrow> 'r \<Rightarrow> 'd \<Rightarrow> scanError + 'd)
     \<Rightarrow> 'c RowScanner \<Rightarrow> ('d \<times> 'r) list \<Rightarrow> (scanError + 'd) list \<times> 'c RowScanner" where
  "scanRows startFn materializeFn rs [] = ([], rs)"
| "scanRows startFn materializeFn rs ((dst, row) # rest) =
     (let (result, rs') = ScanRow startFn materializeFn rs dst row;
          (results, rs'') = scanRows startFn materializeFn rs' rest
      in (result # results, rs''))"

text \<open>
  Modelled from the spec: the start hook of the missing scanner for a classified
  destination: the field index of a struct shape is built, once; the other shapes
  need none.
\<close>

definition start :: "fieldIndex \<Rightarrow> 'v destination \<Rightarrow> scanError option \<times> fieldIndex" where
  "start index dst =
     (case dst of
        StructDestination ms fs \<Rightarrow>
          (case buildFieldIndex ms of
             Inl err \<Rightarrow> (Some err, index)
           | Inr built \<Rightarrow> (None, built))
      | _ \<Rightarrow> (None, index))"

text \<open>
  Modelled from the spec: the materializer as the scanner calls it, on the current row
  of the row source: its column names and its values.
\<close>

definition materializeColumns ::
  "fieldIndex \<Rightarrow> string list \<times> 'v list \<Rightarrow> 'v destination \<Rightarrow> scanError + 'v destination" where
  "materializeColumns index current dst = materialize index (fst current) (snd current) dst"

subsection \<open>Well-formed access paths and destinations\<close>

text \<open>
  Used to state and prove what a row writes. \<open>entered m\<close> gives the members of \<open>m\<close>
  when the resolution enters it (an embedded struct or pointer to struct).
  \<open>validPath ms p\<close>: \<open>p\<close> leads through entered members to a member that is a target.
  \<open>conformsFields ms fs\<close>: the values \<open>fs\<close> have the layout \<open>ms\<close> wherever a path
  can go (an entered struct member holds a struct value, an entered pointer member is
  nil or points to one).
\<close>

fun entered :: "member \<Rightarrow> member list option" where
  "entered (Member name tag exported embedded Leaf) = None"
| "entered (Member name tag exported embedded (StructType sub)) =
     (if embedded then Some sub else None)"
| "entered (Member name tag exported embedded (PtrStructType sub)) =
     (if embedded then Some sub else None)"

fun validPath :: "member list \<Rightarrow> nat list \<Rightarrow> bool" where
  "validPath ms [] = False"
| "validPath ms [i] = (i < length ms \<and> entered (ms ! i) = None)"
| "validPath ms (i # j # p) =
     (i < length ms \<and>
      (case entered (ms ! i) of None \<Rightarrow> False | Some sub \<Rightarrow> validPath sub (j # p)))"

fun conformsFields :: "member list \<Rightarrow> 'v val list \<Rightarrow> bool"
  and conformsType :: "bool \<Rightarrow> memberType \<Rightarrow> 'v val \<Rightarrow> bool" where
  "conformsFields [] fs = (fs = [])"
| "conformsFields (Member name tag exported embedded ty # ms) fs =
     (case fs of
        [] \<Rightarrow> False
      | f # rest \<Rightarrow> conformsType embedded ty f \<and> conformsFields ms rest)"
| "conformsType embedded Leaf v = True"
| "conformsType embedded (StructType sub) v =
     (if embedded then (case v of StructVal gs \<Rightarrow> conformsFields sub gs | _ \<Rightarrow> False)
      else True)"
| "conformsType embedded (PtrStructType sub) v =
     (if embedded
      then (case v of
              NilPtr \<Rightarrow> True
            | Ptr (StructVal gs) \<Rightarrow> conformsFields sub gs
            | _ \<Rightarrow> False)
      else True)"

section \<open>Properties of the name normalizer\<close>

lemma upper_not_lower: "isUpper c \<Longrightarrow> \<not> isLower c"
  by (simp add: isUpper_def isLower_def)

lemma upper_not_digit: "isUpper c \<Longrightarrow> \<not> isDigit c"
  by (simp add: isUpper_def isDigit_def)

lemma upper_not_lowerdigit: "isUpper c \<Longrightarrow> \<not> isLowerOrDigit c"
  by (simp add: isLowerOrDigit_def upper_not_lower upper_not_digit)

lemma alnum_anychar: "isAlnum c \<Longrightarrow> isAnyChar c"
  by (auto simp: isAlnum_def isAnyChar_def isUpper_def isLower_def isDigit_def)

lemma underscore_class:
  "\<not> isUpper CHR ''_''" "\<not> isLowerOrDigit CHR ''_''"
  by (simp_all add: isUpper_def isLowerOrDigit_def isLower_def isDigit_def)

lemma replaceAllCap_scan:
  "replaceAllCap s = (case s of [] \<Rightarrow> [] | c # r \<Rightarrow> c # allCapScan c r)"
proof (induction s rule: replaceAllCap.induct)
  case (1 c u rest)
  show ?case
  proof (cases "isLowerOrDigit c \<and> isUpper u")
    case True
    with 1 have "replaceAllCap rest = (case rest of [] \<Rightarrow> [] | c # r \<Rightarrow> c # allCapScan c r)"
      by simp
    moreover have "allCapScan u rest = (case rest of [] \<Rightarrow> [] | c # r \<Rightarrow> c # allCapScan c r)"
      using True by (cases rest) (simp_all add: upper_not_lowerdigit)
    ultimately show ?thesis using True by simp
  next
    case False
    have "replaceAllCap (u # rest) = u # allCapScan u rest"
      using 1(2) [OF False] by simp
    then show ?thesis using False by auto
  qed
qed simp_all

lemma firstCapScan_inrun:
  "firstCapScan True p s =
     takeWhile isLower s @
     (case dropWhile isLower s of [] \<Rightarrow> [] | x # r \<Rightarrow> x # firstCapScan False x r)"
  by (induction s arbitrary: p) simp_all

lemma replaceFirstCap_scan:
  "replaceFirstCap s = (case s of [] \<Rightarrow> [] | c # r \<Rightarrow> c # firstCapScan False c r)"
proof (induction s rule: replaceFirstCap.induct)
  case (1 c u l rest)
  show ?case
  proof (cases "isAnyChar c \<and> isUpper u \<and> isLower l")
    case True
    with 1 have "replaceFirstCap (dropWhile isLower (l # rest)) =
        (case dropWhile isLower (l # rest) of [] \<Rightarrow> [] | x # r \<Rightarrow> x # firstCapScan False x r)"
      by simp
    then have "firstCapScan True u (l # rest) =
        takeWhile isLower (l # rest) @ replaceFirstCap (dropWhile isLower (l # rest))"
      by (simp only: firstCapScan_inrun)
    then show ?thesis using True by simp
  next
    case False
    have "replaceFirstCap (u # l # rest) = u # firstCapScan False u (l # rest)"
      using 1(2) [OF False] by simp
    then show ?thesis using False by auto
  qed
qed simp_all

lemma scan_compose:
  "isAlnum prev \<Longrightarrow> list_all isAlnum s \<Longrightarrow>
   (inrun \<Longrightarrow> isLower prev \<or> (isUpper prev \<and> startsLower s)) \<Longrightarrow>
   allCapScan prev (firstCapScan inrun prev s) = insertBoundaries prev s"
proof (induction s arbitrary: prev inrun)
  case Nil
  then show ?case by simp
next
  case (Cons u r)
  have u: "isAlnum u" and r: "list_all isAlnum r" using Cons.prems(2) by simp_all
  show ?case
  proof (cases inrun)
    case True
    then have p: "isLower prev \<or> (isUpper prev \<and> isLower u)" using Cons.prems(3) by simp
    have ih: "allCapScan u (firstCapScan (isLower u) u r) = insertBoundaries u r"
      by (rule Cons.IH [OF u r]) simp
    from p show ?thesis
    proof
      assume "isLower prev"
      then show ?thesis using True ih
        by (simp add: isLowerOrDigit_def)
    next
      assume "isUpper prev \<and> isLower u"
      then show ?thesis using True ih
        by (auto simp: upper_not_lowerdigit dest: upper_not_lower)
    qed
  next
    case False
    show ?thesis
    proof (cases "isUpper u \<and> startsLower r")
      case True
      have ih: "allCapScan u (firstCapScan True u r) = insertBoundaries u r"
        by (rule Cons.IH [OF u r]) (simp add: True)
      have "isLowerOrDigit prev \<or> isUpper prev"
        using Cons.prems(1) by (auto simp: isAlnum_def isLowerOrDigit_def)
      then show ?thesis using False True ih alnum_anychar [OF Cons.prems(1)]
        by (auto simp: underscore_class)
    next
      case nomatch: False
      have ih: "allCapScan u (firstCapScan False u r) = insertBoundaries u r"
        by (rule Cons.IH [OF u r]) simp
      show ?thesis using False nomatch ih by auto
    qed
  qed
qed

lemma toSnakeCase_spec:
  "list_all isAlnum s \<Longrightarrow> toSnakeCase s = snakeCaseSpec s"
proof (cases s)
  case Nil
  then show ?thesis by (simp add: toSnakeCase_def ToLower_def)
next
  case (Cons c r)
  assume "list_all isAlnum s"
  then have c: "isAlnum c" and r: "list_all isAlnum r" using Cons by simp_all
  have "replaceAllCap (replaceFirstCap s) = c # allCapScan c (firstCapScan False c r)"
    by (simp add: Cons replaceFirstCap_scan [of "c # r"] replaceAllCap_scan [of "c # _"])
  also have "allCapScan c (firstCapScan False c r) = insertBoundaries c r"
    by (rule scan_compose [OF c r]) simp
  finally show ?thesis by (simp add: toSnakeCase_def Cons)
qed

lemma insertBoundaries_lowerdigit_run:
  "list_all isLowerOrDigit xs \<Longrightarrow>
   insertBoundaries p (xs @ ys) = xs @ insertBoundaries (last (p # xs)) ys"
  by (induction xs arbitrary: p) (auto dest: upper_not_lowerdigit)

lemma insertBoundaries_words:
  "isLowerOrDigit p \<Longrightarrow> list_all capitalizedWord ws \<Longrightarrow>
   insertBoundaries p (concat ws) = concat (map (\<lambda>w. CHR ''_'' # w) ws)"
proof (induction ws arbitrary: p)
  case Nil
  then show ?case by simp
next
  case (Cons w ws)
  from Cons.prems(2) have "capitalizedWord w" by simp
  then obtain u l r where w: "w = u # l # r" and u: "isUpper u"
    and lr: "list_all isLowerOrDigit (l # r)"
    by (cases w rule: capitalizedWord.cases) auto
  have "isLowerOrDigit (last (u # l # r))"
    using lr by (metis last_ConsR last_in_set list.distinct(1) list_all_iff)
  then have ih: "insertBoundaries (last (u # l # r)) (concat ws) = concat (map (\<lambda>w. CHR ''_'' # w) ws)"
    using Cons.IH Cons.prems(2) by simp
  have "insertBoundaries p (concat (w # ws)) = CHR ''_'' # u # insertBoundaries u ((l # r) @ concat ws)"
    using w u Cons.prems(1) by simp
  also have "insertBoundaries u ((l # r) @ concat ws) = (l # r) @ insertBoundaries (last (u # l # r)) (concat ws)"
    by (rule insertBoundaries_lowerdigit_run [OF lr])
  finally show ?case using ih w by simp
qed

lemma Join_Cons: "Join (x # xs) sep = x @ concat (map (\<lambda>y. sep @ y) xs)"
  by (induction xs arbitrary: x) simp_all

lemma snakeCaseSpec_words:
  "ws \<noteq> [] \<Longrightarrow> list_all capitalizedWord ws \<Longrightarrow>
   snakeCaseSpec (concat ws) = Join (map ToLower ws) ''_''"
proof -
  assume ne: "ws \<noteq> []" and all: "list_all capitalizedWord ws"
  then obtain w ws' where ws: "ws = w # ws'" by (cases ws) auto
  from all ws obtain u l r where w: "w = u # l # r" and u: "isUpper u"
    and lr: "list_all isLowerOrDigit (l # r)"
    by (cases w rule: capitalizedWord.cases) auto
  have last: "isLowerOrDigit (last (u # l # r))"
    using lr by (metis last_ConsR last_in_set list.distinct(1) list_all_iff)
  have "insertBoundaries u ((l # r) @ concat ws') = (l # r) @ insertBoundaries (last (u # l # r)) (concat ws')"
    by (rule insertBoundaries_lowerdigit_run [OF lr])
  also have "insertBoundaries (last (u # l # r)) (concat ws') = concat (map (\<lambda>w. CHR ''_'' # w) ws')"
    using insertBoundaries_words [OF last] all ws by simp
  finally have "snakeCaseSpec (concat ws) = ToLower (w @ concat (map (\<lambda>w. CHR ''_'' # w) ws'))"
    using ws w by simp
  also have "\<dots> = Join (map ToLower ws) ''_''"
    unfolding ws by (simp add: Join_Cons ToLower_def map_concat comp_def toLowerChar_def underscore_class)
  finally show ?thesis .
qed

lemma capitalizedWord_alnum: "capitalizedWord w \<Longrightarrow> list_all isAlnum w"
  by (cases w rule: capitalizedWord.cases) (auto simp: isAlnum_def isLowerOrDigit_def list_all_iff)

text \<open>
  C1. On every identifier made of letters and digits \<open>toSnakeCase\<close> returns the
  lowercased name with an underscore before each capital letter that follows a
  lowercase letter or digit, and before each capital that starts a lowercase run after
  an uppercase letter (\<open>snakeCaseSpec\<close>); on a name composed of capitalized word
  segments this is the lowercased words joined by underscores; and
  \<open>toSnakeCase "FooColumn" = "foo_column"\<close>, \<open>toSnakeCase "Bar" = "bar"\<close>.
\<close>

theorem toSnakeCase_word_boundaries:
  "(list_all isAlnum s \<longrightarrow> toSnakeCase s = snakeCaseSpec s) \<and>
   (list_all capitalizedWord ws \<longrightarrow> toSnakeCase (concat ws) = Join (map ToLower ws) ''_'') \<and>
   toSnakeCase ''FooColumn'' = ''foo_column'' \<and> toSnakeCase ''Bar'' = ''bar''"
proof (intro conjI impI)
  assume "list_all isAlnum s"
  then show "toSnakeCase s = snakeCaseSpec s" by (rule toSnakeCase_spec)
next
  assume ws: "list_all capitalizedWord ws"
  show "toSnakeCase (concat ws) = Join (map ToLower ws) ''_''"
  proof (cases "ws = []")
    case True
    then show ?thesis by (simp add: toSnakeCase_def ToLower_def)
  next
    case False
    have "list_all isAlnum (concat ws)"
      using ws capitalizedWord_alnum by (auto simp: list_all_iff)
    then have "toSnakeCase (concat ws) = snakeCaseSpec (concat ws)"
      by (rule toSnakeCase_spec)
    then show ?thesis using snakeCaseSpec_words [OF False ws] by simp
  qed
next
  show "toSnakeCase ''FooColumn'' = ''foo_column''" by code_simp
next
  show "toSnakeCase ''Bar'' = ''bar''" by code_simp
qed

theorem toSnakeCase_word_boundaries_witness:
  "list_all isAlnum ''HTTPServer2Go'' \<and>
   toSnakeCase ''HTTPServer2Go'' = snakeCaseSpec ''HTTPServer2Go'' \<and>
   snakeCaseSpec ''HTTPServer2Go'' = ''http_server2_go'' \<and>
   list_all capitalizedWord [''Foo'', ''Bar'', ''Baz''] \<and>
   toSnakeCase (concat [''Foo'', ''Bar'', ''Baz'']) = ''foo_bar_baz''"
proof -
  have a: "list_all isAlnum ''HTTPServer2Go''" by code_simp
  have w: "list_all capitalizedWord [''Foo'', ''Bar'', ''Baz'']" by code_simp
  have s: "snakeCaseSpec ''HTTPServer2Go'' = ''http_server2_go''" by code_simp
  have j: "Join (map ToLower [''Foo'', ''Bar'', ''Baz'']) ''_'' = ''foo_bar_baz''" by code_simp
  show ?thesis
    using a w s j toSnakeCase_word_boundaries [of "''HTTPServer2Go''" "[''Foo'', ''Bar'', ''Baz'']"]
    by simp
qed

lemma normalized_not_upper: "isNormalizedChar c \<Longrightarrow> \<not> isUpper c"
  by (auto simp: isNormalizedChar_def isUpper_def isLower_def isDigit_def)

lemma replaceFirstCap_no_upper:
  "list_all (\<lambda>c. \<not> isUpper c) s \<Longrightarrow> replaceFirstCap s = s"
  by (induction s rule: replaceFirstCap.induct) simp_all

lemma replaceAllCap_no_upper:
  "list_all (\<lambda>c. \<not> isUpper c) s \<Longrightarrow> replaceAllCap s = s"
  by (induction s rule: replaceAllCap.induct) simp_all

lemma ToLower_no_upper:
  "list_all (\<lambda>c. \<not> isUpper c) s \<Longrightarrow> ToLower s = s"
  by (induction s) (simp_all add: ToLower_def toLowerChar_def)

lemma toSnakeCase_no_upper:
  "list_all (\<lambda>c. \<not> isUpper c) s \<Longrightarrow> toSnakeCase s = s"
  by (simp add: toSnakeCase_def replaceFirstCap_no_upper replaceAllCap_no_upper ToLower_no_upper)

text \<open>
  C9. A string of lowercase letters, digits and underscores only is returned
  unchanged by \<open>toSnakeCase\<close>, so normalizing it twice is normalizing it once.
\<close>

theorem toSnakeCase_normalized_fixpoint:
  "list_all isNormalizedChar s \<Longrightarrow>
     toSnakeCase s = s \<and> toSnakeCase (toSnakeCase s) = toSnakeCase s"
proof -
  assume "list_all isNormalizedChar s"
  then have "list_all (\<lambda>c. \<not> isUpper c) s"
    by (induction s) (simp_all add: normalized_not_upper)
  then have "toSnakeCase s = s" by (rule toSnakeCase_no_upper)
  then show ?thesis by simp
qed

theorem toSnakeCase_normalized_fixpoint_witness:
  "list_all isNormalizedChar ''foo_column1'' \<and>
   toSnakeCase ''foo_column1'' = ''foo_column1'' \<and>
   toSnakeCase (toSnakeCase ''foo_column1'') = toSnakeCase ''foo_column1''"
proof -
  have h: "list_all isNormalizedChar ''foo_column1''"
    by (simp add: isNormalizedChar_def isLower_def isDigit_def)
  show ?thesis using h toSnakeCase_normalized_fixpoint [OF h] by simp
qed

section \<open>Properties of the rows adapter, ScanOne and NotFound\<close>

lemma columnsLoop_map:
  "length columns = i + length fds \<Longrightarrow>
   columnsLoop i fds columns = take i columns @ map Name_fd fds"
proof (induction fds arbitrary: i columns)
  case Nil
  then show ?case by simp
next
  case (Cons fd fds)
  have len: "length (columns[i := Name_fd fd]) = Suc i + length fds"
    using Cons.prems by simp
  have i: "i < length columns" using Cons.prems by simp
  have "columnsLoop i (fd # fds) columns =
        take (Suc i) (columns[i := Name_fd fd]) @ map Name_fd fds"
    using Cons.IH [OF len] by simp
  also have "take (Suc i) (columns[i := Name_fd fd]) = take i columns @ [Name_fd fd]"
    using i by (simp add: take_Suc_conv_app_nth)
  finally show ?case by simp
qed

text \<open>
  C7. \<open>Columns\<close> returns the names of the field descriptions of the wrapped rows, in
  their order, and a nil error, whatever the rows.
\<close>

theorem Columns_field_names:
  "Columns ra = (map Name_fd (FieldDescriptions (Rows ra)), None)"
  by (simp add: Columns_def columnsLoop_map)

lemma IsChain_causes: "IsChain err target \<longleftrightarrow> target \<in> set (causes err)"
  by (induction err) auto

lemma NotFound_causes:
  "NotFound err \<longleftrightarrow> (\<exists>e. err = Some e \<and> ErrNoRows \<in> set (causes e))"
  by (cases err) (simp_all add: NotFound_def IsChain_causes)

lemma NotFound_WithStack: "NotFound (WithStack err) = NotFound err"
  by (cases err) (simp_all add: NotFound_def)

text \<open>
  C6, as stated, fails: \<open>ScanOne\<close> also returns \<^verbatim>\<open>pgx.ErrNoRows\<close> when the result of
  \<^verbatim>\<open>dbscan.ScanOne\<close> is \<^verbatim>\<open>pgx.ErrNoRows\<close> itself, which \<^verbatim>\<open>dbscan.NotFound\<close> need not
  hold of, since every other error is passed on.
\<close>

theorem ScanOne_ErrNoRows_counterexample:
  "ScanOne (scanReturning (Some ErrNoRows)) sentinelNotFound () \<lparr>FieldDescriptions = []\<rparr>
     = Some (withStack ErrNoRows) \<and>
   NotFound (ScanOne (scanReturning (Some ErrNoRows)) sentinelNotFound ()
     \<lparr>FieldDescriptions = []\<rparr>) \<and>
   \<not> sentinelNotFound
     (scanReturning (Some ErrNoRows) () (NewRowsAdapter \<lparr>FieldDescriptions = []\<rparr>))"
  by (simp add: ScanOne_def scanReturning_def sentinelNotFound_def NotFound_def)

text \<open>
  C6, amended. When the result of \<^verbatim>\<open>dbscan.ScanOne\<close> satisfies \<^verbatim>\<open>dbscan.NotFound\<close>,
  \<open>ScanOne\<close> returns \<^verbatim>\<open>pgx.ErrNoRows\<close> (with a stack); otherwise it returns that result
  with a stack, whose cause is the result unchanged, and nil for nil. So \<open>ScanOne\<close>
  returns \<^verbatim>\<open>pgx.ErrNoRows\<close> with a stack exactly when \<^verbatim>\<open>dbscan.NotFound\<close> holds of the
  result or the result is \<^verbatim>\<open>pgx.ErrNoRows\<close> itself, and what it returns wraps
  \<^verbatim>\<open>pgx.ErrNoRows\<close> exactly when \<^verbatim>\<open>dbscan.NotFound\<close> holds of the result or the result
  wraps it. \<open>NotFound err\<close> holds iff \<open>err\<close> is an error with \<^verbatim>\<open>pgx.ErrNoRows\<close> in its
  chain of causes.
\<close>

theorem ScanOne_ErrNoRows_amended:
  "(dbscan_NotFound (dbscan_ScanOne dst (NewRowsAdapter rows)) \<longrightarrow>
      ScanOne dbscan_ScanOne dbscan_NotFound dst rows = Some (withStack ErrNoRows)) \<and>
   (\<not> dbscan_NotFound (dbscan_ScanOne dst (NewRowsAdapter rows)) \<longrightarrow>
      ScanOne dbscan_ScanOne dbscan_NotFound dst rows
        = WithStack (dbscan_ScanOne dst (NewRowsAdapter rows)) \<and>
      (\<forall>e. dbscan_ScanOne dst (NewRowsAdapter rows) = Some e \<longrightarrow>
         ScanOne dbscan_ScanOne dbscan_NotFound dst rows = Some (withStack e) \<and>
         Unwrap (withStack e) = Some e) \<and>
      (dbscan_ScanOne dst (NewRowsAdapter rows) = None \<longrightarrow>
         ScanOne dbscan_ScanOne dbscan_NotFound dst rows = None)) \<and>
   (ScanOne dbscan_ScanOne dbscan_NotFound dst rows = Some (withStack ErrNoRows)
      \<longleftrightarrow> dbscan_NotFound (dbscan_ScanOne dst (NewRowsAdapter rows)) \<or>
          dbscan_ScanOne dst (NewRowsAdapter rows) = Some ErrNoRows) \<and>
   (NotFound (ScanOne dbscan_ScanOne dbscan_NotFound dst rows)
      \<longleftrightarrow> dbscan_NotFound (dbscan_ScanOne dst (NewRowsAdapter rows)) \<or>
          NotFound (dbscan_ScanOne dst (NewRowsAdapter rows))) \<and>
   (NotFound err \<longleftrightarrow> (\<exists>e. err = Some e \<and> ErrNoRows \<in> set (causes e)))"
proof -
  define result where "result = dbscan_ScanOne dst (NewRowsAdapter rows)"
  have s: "ScanOne dbscan_ScanOne dbscan_NotFound dst rows =
      (if dbscan_NotFound result then Some (withStack ErrNoRows) else WithStack result)"
    by (simp add: ScanOne_def result_def)
  have 1: "dbscan_NotFound result \<longrightarrow>
      ScanOne dbscan_ScanOne dbscan_NotFound dst rows = Some (withStack ErrNoRows)"
    by (simp add: s)
  have 2: "\<not> dbscan_NotFound result \<longrightarrow>
      ScanOne dbscan_ScanOne dbscan_NotFound dst rows = WithStack result \<and>
      (\<forall>e. result = Some e \<longrightarrow>
         ScanOne dbscan_ScanOne dbscan_NotFound dst rows = Some (withStack e) \<and>
         Unwrap (withStack e) = Some e) \<and>
      (result = None \<longrightarrow> ScanOne dbscan_ScanOne dbscan_NotFound dst rows = None)"
  proof (intro impI)
    assume "\<not> dbscan_NotFound result"
    then have w: "ScanOne dbscan_ScanOne dbscan_NotFound dst rows = WithStack result"
      by (simp add: s)
    show "ScanOne dbscan_ScanOne dbscan_NotFound dst rows = WithStack result \<and>
      (\<forall>e. result = Some e \<longrightarrow>
         ScanOne dbscan_ScanOne dbscan_NotFound dst rows = Some (withStack e) \<and>
         Unwrap (withStack e) = Some e) \<and>
      (result = None \<longrightarrow> ScanOne dbscan_ScanOne dbscan_NotFound dst rows = None)"
      unfolding w by simp
  qed
  have ws: "WithStack result = Some (withStack ErrNoRows) \<longleftrightarrow> result = Some ErrNoRows"
    by (cases result) simp_all
  have 3: "ScanOne dbscan_ScanOne dbscan_NotFound dst rows = Some (withStack ErrNoRows)
      \<longleftrightarrow> dbscan_NotFound result \<or> result = Some ErrNoRows"
  proof (cases "dbscan_NotFound result")
    case True
    then show ?thesis by (simp add: s)
  next
    case False
    then show ?thesis by (simp add: s ws)
  qed
  have nf: "NotFound (Some (withStack ErrNoRows))" by (simp add: NotFound_def)
  have 4: "NotFound (ScanOne dbscan_ScanOne dbscan_NotFound dst rows)
      \<longleftrightarrow> dbscan_NotFound result \<or> NotFound result"
  proof (cases "dbscan_NotFound result")
    case True
    then show ?thesis by (simp add: s nf)
  next
    case False
    then show ?thesis by (simp add: s NotFound_WithStack)
  qed
  have 5: "NotFound err \<longleftrightarrow> (\<exists>e. err = Some e \<and> ErrNoRows \<in> set (causes e))"
    by (rule NotFound_causes)
  show ?thesis
    unfolding result_def [symmetric]
    by (intro conjI 1 2 3 4 5)
qed

theorem ScanOne_ErrNoRows_amended_witness:
  "sentinelNotFound
     (scanReturning (Some (fundamental ''scany: no row was found'')) ()
        (NewRowsAdapter \<lparr>FieldDescriptions = []\<rparr>)) \<and>
   ScanOne (scanReturning (Some (fundamental ''scany: no row was found''))) sentinelNotFound
     () \<lparr>FieldDescriptions = []\<rparr> = Some (withStack ErrNoRows) \<and>
   NotFound (Some (withStack ErrNoRows)) \<and>
   \<not> sentinelNotFound
     (scanReturning (Some (withMessage (fundamental ''closed'') ''scany: rows final error'')) ()
        (NewRowsAdapter \<lparr>FieldDescriptions = []\<rparr>)) \<and>
   ScanOne (scanReturning (Some (withMessage (fundamental ''closed'') ''scany: rows final error'')))
     sentinelNotFound () \<lparr>FieldDescriptions = []\<rparr>
     = Some (withStack (withMessage (fundamental ''closed'') ''scany: rows final error'')) \<and>
   \<not> NotFound (Some (withStack (withMessage (fundamental ''closed'') ''scany: rows final error'')))"
proof -
  let ?found = "scanReturning (Some (fundamental ''scany: no row was found''))"
  let ?closed = "scanReturning (Some (withMessage (fundamental ''closed'') ''scany: rows final error''))"
  let ?rows = "\<lparr>FieldDescriptions = []\<rparr>"
  have h1: "sentinelNotFound (?found () (NewRowsAdapter ?rows))"
    by (simp add: sentinelNotFound_def scanReturning_def)
  have h2: "\<not> sentinelNotFound (?closed () (NewRowsAdapter ?rows))"
    by (simp add: sentinelNotFound_def scanReturning_def)
  have r: "?closed () (NewRowsAdapter ?rows)
      = Some (withMessage (fundamental ''closed'') ''scany: rows final error'')"
    by (simp add: scanReturning_def)
  note a = ScanOne_ErrNoRows_amended [of sentinelNotFound ?found "()" ?rows
      "Some (withStack ErrNoRows)"]
  note b = ScanOne_ErrNoRows_amended [of sentinelNotFound ?closed "()" ?rows
      "Some (withStack (withMessage (fundamental ''closed'') ''scany: rows final error''))"]
  from a h1 have found: "ScanOne ?found sentinelNotFound () ?rows = Some (withStack ErrNoRows)"
    by simp
  from a have nf: "NotFound (Some (withStack ErrNoRows))" by simp
  from b h2 r have closed: "ScanOne ?closed sentinelNotFound () ?rows
      = Some (withStack (withMessage (fundamental ''closed'') ''scany: rows final error''))"
    by simp
  from b have nnf: "\<not> NotFound (Some (withStack (withMessage (fundamental ''closed'')
      ''scany: rows final error'')))"
    by simp
  from h1 found nf h2 closed nnf show ?thesis by (intro conjI)
qed

section \<open>Properties of Insert\<close>

lemma valueText_unsupported:
  "\<not> supportedKind (Value_Kind v) \<Longrightarrow>
   valueText fmtFloat v =
     Inl (Some (withStack (withMessage
            (fundamental (''type: '' @ Kind_String (Value_Kind v) @ '' unsupported''))
            ''scany: this type not yet supported'')))"
  by (cases "Value_Kind v") (simp_all add: valueText_def supportedKind_def)

lemma valueText_supported:
  "supportedKind (Value_Kind v) \<Longrightarrow>
   \<exists>t. valueText fmtFloat v = Inr t \<and>
       (Value_Kind v = reflect_String \<longrightarrow> t = quote @ Value_String v @ quote)"
  by (cases "Value_Kind v") (simp_all add: valueText_def supportedKind_def)

lemma insertLoop_supported:
  "list_all (\<lambda>f. supportedKind (Value_Kind (FieldValue f))) data \<Longrightarrow>
   \<exists>vals. length vals = length data \<and>
     insertLoop fmtFloat data dbCols dbVals = Inr (dbCols @ map columnName data, dbVals @ vals) \<and>
     (\<forall>i<length data. Value_Kind (FieldValue (data ! i)) = reflect_String \<longrightarrow>
        vals ! i = quote @ Value_String (FieldValue (data ! i)) @ quote)"
proof (induction data arbitrary: dbCols dbVals)
  case Nil
  then show ?case by simp
next
  case (Cons f rest)
  from Cons.prems have f: "supportedKind (Value_Kind (FieldValue f))"
    and rest: "list_all (\<lambda>f. supportedKind (Value_Kind (FieldValue f))) rest"
    by simp_all
  from valueText_supported [OF f, of fmtFloat] obtain t where
    t: "valueText fmtFloat (FieldValue f) = Inr t"
    and ts: "Value_Kind (FieldValue f) = reflect_String \<longrightarrow> t = quote @ Value_String (FieldValue f) @ quote"
    by blast
  from Cons.IH [OF rest, of "dbCols @ [columnName f]" "dbVals @ [t]"] obtain vals where
    len: "length vals = length rest"
    and loop: "insertLoop fmtFloat rest (dbCols @ [columnName f]) (dbVals @ [t]) =
                 Inr ((dbCols @ [columnName f]) @ map columnName rest, (dbVals @ [t]) @ vals)"
    and strs: "\<forall>i<length rest. Value_Kind (FieldValue (rest ! i)) = reflect_String \<longrightarrow>
                 vals ! i = quote @ Value_String (FieldValue (rest ! i)) @ quote"
    by blast
  have "\<forall>i<length (f # rest). Value_Kind (FieldValue ((f # rest) ! i)) = reflect_String \<longrightarrow>
          (t # vals) ! i = quote @ Value_String (FieldValue ((f # rest) ! i)) @ quote"
  proof (intro allI impI)
    fix i assume "i < length (f # rest)"
      and "Value_Kind (FieldValue ((f # rest) ! i)) = reflect_String"
    then show "(t # vals) ! i = quote @ Value_String (FieldValue ((f # rest) ! i)) @ quote"
      using ts strs by (cases i) simp_all
  qed
  moreover have "insertLoop fmtFloat (f # rest) dbCols dbVals =
      Inr (dbCols @ map columnName (f # rest), dbVals @ (t # vals))"
    using t loop by simp
  moreover have "length (t # vals) = length (f # rest)" using len by simp
  ultimately show ?case by blast
qed

lemma insertLoop_unsupported:
  "list_all (\<lambda>f. supportedKind (Value_Kind (FieldValue f))) pre \<Longrightarrow>
   \<not> supportedKind (Value_Kind (FieldValue f)) \<Longrightarrow>
   insertLoop fmtFloat (pre @ f # post) dbCols dbVals =
     Inl (Some (withStack (withMessage
            (fundamental (''type: '' @ Kind_String (Value_Kind (FieldValue f)) @ '' unsupported''))
            ''scany: this type not yet supported'')))"
proof (induction pre arbitrary: dbCols dbVals)
  case Nil
  then show ?case by (simp add: valueText_unsupported)
next
  case (Cons g pre)
  from Cons.prems have "supportedKind (Value_Kind (FieldValue g))" by simp
  from valueText_supported [OF this, of fmtFloat] obtain t where
    "valueText fmtFloat (FieldValue g) = Inr t" by blast
  then show ?case using Cons by simp
qed

lemma first_unsupported:
  "\<not> list_all P xs \<Longrightarrow> \<exists>pre x post. xs = pre @ x # post \<and> list_all P pre \<and> \<not> P x"
proof (induction xs)
  case Nil
  then show ?case by simp
next
  case (Cons a xs)
  show ?case
  proof (cases "P a")
    case True
    with Cons obtain pre x post where "xs = pre @ x # post" "list_all P pre" "\<not> P x"
      by auto
    then have "a # xs = (a # pre) @ x # post \<and> list_all P (a # pre) \<and> \<not> P x"
      using True by simp
    then show ?thesis by blast
  next
    case False
    then have "a # xs = [] @ a # xs \<and> list_all P [] \<and> \<not> P a" by simp
    then show ?thesis by blast
  qed
qed

text \<open>
  C8. For a struct whose fields all have supported kinds, \<open>Insert\<close> passes to the
  database exactly one statement, the concatenation
  \<^verbatim>\<open>"INSERT INTO " + table + " (" + columns + ") VALUES (" + values + ") " + additionalQuery\<close>
  where the columns are, field by field in declaration order, the \<^verbatim>\<open>pgx\<close> tag when
  present and \<open>toSnakeCase\<close> of the field name otherwise, joined by \<^verbatim>\<open>", "\<close>, and the
  values are one text per field, joined by \<^verbatim>\<open>", "\<close>, that of a string field being the
  string between single quotes.
\<close>

theorem Insert_statement:
  "list_all (\<lambda>f. supportedKind (Value_Kind (FieldValue f))) data \<Longrightarrow>
   \<exists>vals. length vals = length data \<and>
     snd (Insert Query fmtFloat data table additionalQuery) =
       [''INSERT INTO '' @ table @ '' (''
          @ Join (map (\<lambda>f. case Lookup (Tag f) ''pgx'' of
                              Some val \<Rightarrow> val
                            | None \<Rightarrow> toSnakeCase (Name f)) data) '', ''
          @ '') VALUES ('' @ Join vals '', '' @ '') '' @ additionalQuery] \<and>
     (\<forall>i<length data. Value_Kind (FieldValue (data ! i)) = reflect_String \<longrightarrow>
        vals ! i = [CHR 0x27] @ Value_String (FieldValue (data ! i)) @ [CHR 0x27])"
proof -
  assume "list_all (\<lambda>f. supportedKind (Value_Kind (FieldValue f))) data"
  from insertLoop_supported [OF this, of fmtFloat "[]" "[]"] obtain vals where
    len: "length vals = length data"
    and loop: "insertLoop fmtFloat data [] [] = Inr (map columnName data, vals)"
    and strs: "\<forall>i<length data. Value_Kind (FieldValue (data ! i)) = reflect_String \<longrightarrow>
        vals ! i = quote @ Value_String (FieldValue (data ! i)) @ quote"
    by auto
  have cols: "map columnName data =
      map (\<lambda>f. case Lookup (Tag f) ''pgx'' of Some val \<Rightarrow> val | None \<Rightarrow> toSnakeCase (Name f)) data"
    by (simp add: columnName_def)
  have "snd (Insert Query fmtFloat data table additionalQuery) =
       [''INSERT INTO '' @ table @ '' ('' @ Join (map columnName data) '', ''
          @ '') VALUES ('' @ Join vals '', '' @ '') '' @ additionalQuery]"
    using loop by (simp add: Insert_def Let_def)
  then show ?thesis using len strs unfolding cols quote_def by blast
qed

theorem Insert_statement_witness:
  "list_all (\<lambda>f. supportedKind (Value_Kind (FieldValue f)))
     [\<lparr>Name = ''ID'', Tag = [(''pgx'', ''id'')],
       FieldValue = \<lparr>Value_Kind = reflect_String, Value_String = ''user_1'',
                      Value_Int = 0, Value_Float = ()\<rparr>\<rparr>,
      \<lparr>Name = ''UserAge'', Tag = [],
       FieldValue = \<lparr>Value_Kind = reflect_Int, Value_String = [],
                      Value_Int = 40, Value_Float = ()\<rparr>\<rparr>] \<and>
   Insert (\<lambda>sql. None) (\<lambda>x. ''0.000000'')
     [\<lparr>Name = ''ID'', Tag = [(''pgx'', ''id'')],
       FieldValue = \<lparr>Value_Kind = reflect_String, Value_String = ''user_1'',
                      Value_Int = 0, Value_Float = ()\<rparr>\<rparr>,
      \<lparr>Name = ''UserAge'', Tag = [],
       FieldValue = \<lparr>Value_Kind = reflect_Int, Value_String = [],
                      Value_Int = 40, Value_Float = ()\<rparr>\<rparr>]
     ''my_user_table'' ''RETURNING id''
   = (None, [''INSERT INTO my_user_table (id, user_age) VALUES ('' @ [CHR 0x27] @ ''user_1''
               @ [CHR 0x27] @ '', 40) RETURNING id''])"
proof -
  let ?data = "[\<lparr>Name = ''ID'', Tag = [(''pgx'', ''id'')],
       FieldValue = \<lparr>Value_Kind = reflect_String, Value_String = ''user_1'',
                      Value_Int = 0, Value_Float = ()\<rparr>\<rparr>,
      \<lparr>Name = ''UserAge'', Tag = [],
       FieldValue = \<lparr>Value_Kind = reflect_Int, Value_String = [],
                      Value_Int = 40, Value_Float = ()\<rparr>\<rparr>]"
  have h: "list_all (\<lambda>f. supportedKind (Value_Kind (FieldValue f))) ?data"
    by (simp add: supportedKind_def)
  have age: "toSnakeCase ''UserAge'' = ''user_age''" by code_simp
  have forty: "FormatInt 40 = ''40''" by code_simp
  from Insert_statement [OF h, of "\<lambda>sql. None" "\<lambda>x. ''0.000000''" "''my_user_table''" "''RETURNING id''"]
  obtain vals where
    len: "length vals = length ?data"
    and sql: "snd (Insert (\<lambda>sql. None) (\<lambda>x. ''0.000000'') ?data ''my_user_table'' ''RETURNING id'') =
       [''INSERT INTO '' @ ''my_user_table'' @ '' (''
          @ Join (map (\<lambda>f. case Lookup (Tag f) ''pgx'' of
                              Some val \<Rightarrow> val
                            | None \<Rightarrow> toSnakeCase (Name f)) ?data) '', ''
          @ '') VALUES ('' @ Join vals '', '' @ '') '' @ ''RETURNING id'']"
    by blast
  have e: "fst (Insert (\<lambda>sql. None) (\<lambda>x. ''0.000000'') ?data ''my_user_table'' ''RETURNING id'') = None"
    by (simp add: Insert_def valueText_def Let_def)
  have v: "snd (Insert (\<lambda>sql. None) (\<lambda>x. ''0.000000'') ?data ''my_user_table'' ''RETURNING id'') =
      [''INSERT INTO my_user_table (id, user_age) VALUES ('' @ [CHR 0x27] @ ''user_1''
               @ [CHR 0x27] @ '', 40) RETURNING id'']"
    by (simp add: Insert_def valueText_def Let_def columnName_def Lookup_def age forty quote_def)
  show ?thesis using h e v sql by (simp add: prod_eq_iff)
qed

text \<open>
  C10. When the struct has a field whose kind is not one of String, Int, Int8, Int32,
  Int64, Float32, Float64, \<open>Insert\<close> returns the error
  \<^verbatim>\<open>scany: this type not yet supported\<close> around \<^verbatim>\<open>type: <kind> unsupported\<close> for the
  kind of the first such field, and passes no statement to the database; \<^verbatim>\<open>int16\<close>,
  \<^verbatim>\<open>uint\<close> and \<^verbatim>\<open>bool\<close> are such kinds.
\<close>

theorem Insert_unsupported_kind:
  "(\<not> list_all (\<lambda>f. supportedKind (Value_Kind (FieldValue f))) data \<longrightarrow>
     (\<exists>pre f post. data = pre @ f # post \<and>
        list_all (\<lambda>f. supportedKind (Value_Kind (FieldValue f))) pre \<and>
        \<not> supportedKind (Value_Kind (FieldValue f)) \<and>
        Insert Query fmtFloat data table additionalQuery =
          (Some (withStack (withMessage
             (fundamental (''type: '' @ Kind_String (Value_Kind (FieldValue f)) @ '' unsupported''))
             ''scany: this type not yet supported'')), []))) \<and>
   (supportedKind k \<longleftrightarrow> k \<in> {reflect_String, reflect_Int, reflect_Int8, reflect_Int32,
                               reflect_Int64, reflect_Float32, reflect_Float64}) \<and>
   \<not> supportedKind reflect_Int16 \<and> \<not> supportedKind reflect_Uint \<and> \<not> supportedKind reflect_Bool"
proof (intro conjI impI)
  assume "\<not> list_all (\<lambda>f. supportedKind (Value_Kind (FieldValue f))) data"
  from first_unsupported [OF this] obtain pre f post where
    d: "data = pre @ f # post"
    and pre: "list_all (\<lambda>f. supportedKind (Value_Kind (FieldValue f))) pre"
    and f: "\<not> supportedKind (Value_Kind (FieldValue f))"
    by blast
  have "insertLoop fmtFloat data [] [] =
     Inl (Some (withStack (withMessage
            (fundamental (''type: '' @ Kind_String (Value_Kind (FieldValue f)) @ '' unsupported''))
            ''scany: this type not yet supported'')))"
    unfolding d by (rule insertLoop_unsupported [OF pre f])
  then have "Insert Query fmtFloat data table additionalQuery =
          (Some (withStack (withMessage
             (fundamental (''type: '' @ Kind_String (Value_Kind (FieldValue f)) @ '' unsupported''))
             ''scany: this type not yet supported'')), [])"
    by (simp add: Insert_def)
  with d pre f show "\<exists>pre f post. data = pre @ f # post \<and>
        list_all (\<lambda>f. supportedKind (Value_Kind (FieldValue f))) pre \<and>
        \<not> supportedKind (Value_Kind (FieldValue f)) \<and>
        Insert Query fmtFloat data table additionalQuery =
          (Some (withStack (withMessage
             (fundamental (''type: '' @ Kind_String (Value_Kind (FieldValue f)) @ '' unsupported''))
             ''scany: this type not yet supported'')), [])"
    by blast
qed (simp_all add: supportedKind_def)

theorem Insert_unsupported_kind_witness:
  "\<not> list_all (\<lambda>f. supportedKind (Value_Kind (FieldValue f)))
     [\<lparr>Name = ''ID'', Tag = [(''pgx'', ''id'')],
       FieldValue = \<lparr>Value_Kind = reflect_String, Value_String = ''user_1'',
                      Value_Int = 0, Value_Float = ()\<rparr>\<rparr>,
      \<lparr>Name = ''Small'', Tag = [],
       FieldValue = \<lparr>Value_Kind = reflect_Int16, Value_String = [],
                      Value_Int = 7, Value_Float = ()\<rparr>\<rparr>] \<and>
   Insert (\<lambda>sql. None) (\<lambda>x. ''0.000000'')
     [\<lparr>Name = ''ID'', Tag = [(''pgx'', ''id'')],
       FieldValue = \<lparr>Value_Kind = reflect_String, Value_String = ''user_1'',
                      Value_Int = 0, Value_Float = ()\<rparr>\<rparr>,
      \<lparr>Name = ''Small'', Tag = [],
       FieldValue = \<lparr>Value_Kind = reflect_Int16, Value_String = [],
                      Value_Int = 7, Value_Float = ()\<rparr>\<rparr>]
     ''my_user_table'' []
   = (Some (withStack (withMessage (fundamental ''type: int16 unsupported'')
              ''scany: this type not yet supported'')), [])"
proof -
  let ?data = "[\<lparr>Name = ''ID'', Tag = [(''pgx'', ''id'')],
       FieldValue = \<lparr>Value_Kind = reflect_String, Value_String = ''user_1'',
                      Value_Int = 0, Value_Float = ()\<rparr>\<rparr>,
      \<lparr>Name = ''Small'', Tag = [],
       FieldValue = \<lparr>Value_Kind = reflect_Int16, Value_String = [],
                      Value_Int = 7, Value_Float = ()\<rparr>\<rparr>]"
  have h: "\<not> list_all (\<lambda>f. supportedKind (Value_Kind (FieldValue f))) ?data"
    by (simp add: supportedKind_def)
  from Insert_unsupported_kind [of ?data "\<lambda>sql. None" "\<lambda>x. ''0.000000''" "''my_user_table''" "[]"] h
  obtain pre f post where
    d: "?data = pre @ f # post"
    and pre: "list_all (\<lambda>f. supportedKind (Value_Kind (FieldValue f))) pre"
    and f: "\<not> supportedKind (Value_Kind (FieldValue f))"
    and r: "Insert (\<lambda>sql. None) (\<lambda>x. ''0.000000'') ?data ''my_user_table'' [] =
          (Some (withStack (withMessage
             (fundamental (''type: '' @ Kind_String (Value_Kind (FieldValue f)) @ '' unsupported''))
             ''scany: this type not yet supported'')), [])"
    by blast
  have "Insert (\<lambda>sql. None) (\<lambda>x. ''0.000000'') ?data ''my_user_table'' [] =
      (Some (withStack (withMessage (fundamental ''type: int16 unsupported'')
              ''scany: this type not yet supported'')), [])"
    by (simp add: Insert_def valueText_def quote_def)
  with h r show ?thesis by simp
qed

section \<open>Properties of the row scanner\<close>

lemma ScanRow_state:
  "started (snd (ScanRow startFn materializeFn rs dst row)) \<and>
   startCalls (snd (ScanRow startFn materializeFn rs dst row)) =
     (if started rs then startCalls rs else Suc (startCalls rs))"
  by (simp add: ScanRow_def Let_def split: prod.splits option.splits)

lemma ScanRow_when_started:
  "started rs \<Longrightarrow>
   ScanRow startFn materializeFn rs dst row = (materializeFn (cache rs) row dst, rs)"
  by (simp add: ScanRow_def)

lemma scanRows_when_started:
  "started rs \<Longrightarrow> snd (scanRows startFn materializeFn rs rows) = rs"
proof (induction rows arbitrary: rs)
  case Nil
  then show ?case by simp
next
  case (Cons first rest)
  obtain dst row where first: "first = (dst, row)" by (cases first)
  have "snd (scanRows startFn materializeFn rs (first # rest)) =
        snd (scanRows startFn materializeFn rs rest)"
    using Cons.prems by (simp add: first ScanRow_when_started split: prod.splits)
  then show ?case using Cons.IH [OF Cons.prems] by simp
qed

lemma scanRows_from_new:
  "rows \<noteq> [] \<Longrightarrow>
   started (snd (scanRows startFn materializeFn (NewRowScanner c) rows)) \<and>
   startCalls (snd (scanRows startFn materializeFn (NewRowScanner c) rows)) = 1"
proof (cases rows)
  case Nil
  assume "rows \<noteq> []"
  with Nil show ?thesis by simp
next
  case (Cons first rest)
  obtain dst row where first: "first = (dst, row)" by (cases first)
  let ?rs = "snd (ScanRow startFn materializeFn (NewRowScanner c) dst row)"
  have st: "started ?rs" and calls: "startCalls ?rs = 1"
    using ScanRow_state [of startFn materializeFn "NewRowScanner c" dst row]
    by (simp_all add: NewRowScanner_def)
  have "snd (scanRows startFn materializeFn (NewRowScanner c) rows) =
        snd (scanRows startFn materializeFn ?rs rest)"
    by (simp add: Cons first split: prod.splits)
  also have "\<dots> = ?rs" by (rule scanRows_when_started [OF st])
  finally show ?thesis using st calls by simp
qed

text \<open>
  C2. A new scanner is not started. Its first \<open>ScanRow\<close> invokes the start hook and
  leaves it started, with one invocation counted. A \<open>ScanRow\<close> of a started scanner
  does not invoke the hook (it is the materializer's result on the cached resolution)
  and leaves the scanner as it was, started, also when the row fails. So after any
  non-empty run of rows from a new scanner the scanner is started and the hook has run
  exactly once.
\<close>

theorem RowScanner_starts_once:
  "\<not> Started (NewRowScanner c) \<and> startCalls (NewRowScanner c) = 0 \<and>
   Started (snd (ScanRow startFn materializeFn (NewRowScanner c) dst row)) \<and>
   startCalls (snd (ScanRow startFn materializeFn (NewRowScanner c) dst row)) = 1 \<and>
   (Started rs \<longrightarrow>
      ScanRow startFn materializeFn rs dst row = (materializeFn (cache rs) row dst, rs)) \<and>
   (Started rs \<longrightarrow> (\<forall>err. fst (ScanRow startFn materializeFn rs dst row) = Inl err \<longrightarrow>
      Started (snd (ScanRow startFn materializeFn rs dst row)) \<and>
      startCalls (snd (ScanRow startFn materializeFn rs dst row)) = startCalls rs)) \<and>
   Started (snd (ScanRow startFn materializeFn rs dst row)) \<and>
   (rows \<noteq> [] \<longrightarrow>
      Started (snd (scanRows startFn materializeFn (NewRowScanner c) rows)) \<and>
      startCalls (snd (scanRows startFn materializeFn (NewRowScanner c) rows)) = 1)"
proof -
  have new: "\<not> Started (NewRowScanner c) \<and> startCalls (NewRowScanner c) = 0"
    by (simp add: Started_def NewRowScanner_def)
  have first: "Started (snd (ScanRow startFn materializeFn (NewRowScanner c) dst row)) \<and>
     startCalls (snd (ScanRow startFn materializeFn (NewRowScanner c) dst row)) = 1"
    using ScanRow_state [of startFn materializeFn "NewRowScanner c" dst row]
    by (simp add: Started_def NewRowScanner_def)
  have later: "Started rs \<longrightarrow>
      ScanRow startFn materializeFn rs dst row = (materializeFn (cache rs) row dst, rs)"
    by (simp add: Started_def ScanRow_when_started)
  have failing: "Started rs \<longrightarrow> (\<forall>err. fst (ScanRow startFn materializeFn rs dst row) = Inl err \<longrightarrow>
      Started (snd (ScanRow startFn materializeFn rs dst row)) \<and>
      startCalls (snd (ScanRow startFn materializeFn rs dst row)) = startCalls rs)"
    by (simp add: Started_def ScanRow_when_started)
  have any: "Started (snd (ScanRow startFn materializeFn rs dst row))"
    using ScanRow_state [of startFn materializeFn rs dst row] by (simp add: Started_def)
  have run: "rows \<noteq> [] \<longrightarrow>
      Started (snd (scanRows startFn materializeFn (NewRowScanner c) rows)) \<and>
      startCalls (snd (scanRows startFn materializeFn (NewRowScanner c) rows)) = 1"
    using scanRows_from_new [of rows startFn materializeFn c] by (simp add: Started_def)
  from new first later failing any run show ?thesis by blast
qed

section \<open>Properties of the row materializer: repeated columns\<close>

lemma firstDuplicate_finds:
  "distinct seen \<Longrightarrow> \<not> distinct (seen @ cs) \<Longrightarrow>
   \<exists>c pre post. cs = pre @ c # post \<and> c \<in> set (seen @ pre) \<and> distinct (seen @ pre) \<and>
       firstDuplicate seen cs = Some c"
proof (induction cs arbitrary: seen)
  case Nil
  then show ?case by simp
next
  case (Cons a cs)
  show ?case
  proof (cases "a \<in> set seen")
    case True
    then have "a # cs = [] @ a # cs \<and> a \<in> set (seen @ []) \<and> distinct (seen @ []) \<and>
        firstDuplicate seen (a # cs) = Some a"
      using Cons.prems(1) by simp
    then show ?thesis by blast
  next
    case False
    then have d: "distinct (seen @ [a])" using Cons.prems(1) by simp
    have nd: "\<not> distinct ((seen @ [a]) @ cs)" using Cons.prems(2) by simp
    from Cons.IH [OF d nd] obtain c pre post where
      cs: "cs = pre @ c # post" and c: "c \<in> set ((seen @ [a]) @ pre)"
      and dp: "distinct ((seen @ [a]) @ pre)"
      and f: "firstDuplicate (seen @ [a]) cs = Some c"
      by blast
    have "a # cs = (a # pre) @ c # post \<and> c \<in> set (seen @ a # pre) \<and>
        distinct (seen @ a # pre) \<and> firstDuplicate seen (a # cs) = Some c"
      using cs c dp f False by simp
    then show ?thesis by blast
  qed
qed

text \<open>
  C5. When a column name occurs twice in the column list of a row, materialization
  fails with \<open>DuplicateColumn\<close> naming the first column that repeats an earlier one,
  whatever the destination (struct, mapping or scalar), the index and the values; the
  result is the error alone, so nothing of the row reaches the destination.
\<close>

theorem materialize_duplicate_column:
  "\<not> distinct columns \<Longrightarrow>
   \<exists>c pre post. columns = pre @ c # post \<and> c \<in> set pre \<and> distinct pre \<and>
     materialize index columns row dst = Inl (DuplicateColumn c)"
proof -
  assume "\<not> distinct columns"
  then have "\<not> distinct ([] @ columns)" by simp
  from firstDuplicate_finds [OF _ this] obtain c pre post where
    "columns = pre @ c # post" "c \<in> set pre" "distinct pre"
    "firstDuplicate [] columns = Some c"
    by auto
  then show ?thesis by (auto simp: materialize_def)
qed

section \<open>Properties of the struct field index\<close>

lemma resolve_paths:
  "(c, p) \<in> set (resolveMembers prefix path i ms) \<Longrightarrow> \<exists>k r. p = path @ k # r \<and> i \<le> k"
  "(c, p) \<in> set (resolveMember prefix path i m) \<Longrightarrow> \<exists>r. p = path @ i # r"
  "(c, p) \<in> set (resolveType prefix path' name tag embedded ty) \<Longrightarrow> \<exists>r. p = path' @ r"
proof (induction prefix path i ms and prefix path i m and prefix path' name tag embedded ty
    rule: resolveMembers_resolveMember_resolveType.induct)
  case (1 prefix path i)
  then show ?case by simp
next
  case (2 prefix path i m ms)
  from "2.prems" have "(c, p) \<in> set (resolveMember prefix path i m) \<or>
      (c, p) \<in> set (resolveMembers prefix path (Suc i) ms)" by simp
  then show ?case
  proof
    assume "(c, p) \<in> set (resolveMember prefix path i m)"
    from "2.IH"(1) [OF this] show ?thesis by auto
  next
    assume "(c, p) \<in> set (resolveMembers prefix path (Suc i) ms)"
    from "2.IH"(2) [OF this] obtain k r where "p = path @ k # r" "Suc i \<le> k" by blast
    then have "p = path @ k # r \<and> i \<le> k" by simp
    then show ?thesis by blast
  qed
next
  case (3 prefix path i name tag exported embedded ty)
  then show ?case by (auto split: if_splits)
next
  case (4 prefix path name tag embedded)
  then show ?case by simp
next
  case (5 prefix path name tag embedded ms)
  then show ?case by (fastforce split: if_splits)
next
  case (6 prefix path name tag embedded ms)
  then show ?case by (fastforce split: if_splits)
qed

lemma resolve_distinct:
  "distinct (map snd (resolveMembers prefix path i ms))"
  "distinct (map snd (resolveMember prefix path i m))"
  "distinct (map snd (resolveType prefix path' name tag embedded ty))"
proof (induction prefix path i ms and prefix path i m and prefix path' name tag embedded ty
    rule: resolveMembers_resolveMember_resolveType.induct)
  case (2 prefix path i m ms)
  have "snd ` set (resolveMember prefix path i m) \<inter>
        snd ` set (resolveMembers prefix path (Suc i) ms) = {}"
  proof (rule ccontr)
    assume "snd ` set (resolveMember prefix path i m) \<inter>
        snd ` set (resolveMembers prefix path (Suc i) ms) \<noteq> {}"
    then obtain c1 c2 p where
      a: "(c1, p) \<in> set (resolveMember prefix path i m)"
      and b: "(c2, p) \<in> set (resolveMembers prefix path (Suc i) ms)"
      by fastforce
    from resolve_paths(2) [OF a] obtain r where "p = path @ i # r" by blast
    moreover from resolve_paths(1) [OF b] obtain k r' where "p = path @ k # r'" "Suc i \<le> k"
      by blast
    ultimately show False by simp
  qed
  with 2 show ?case by simp
qed simp_all

lemma insertEntries_duplicate:
  "distinct (map fst index) \<Longrightarrow> \<not> distinct (map fst (index @ entries)) \<Longrightarrow>
   \<exists>c p1 p2 i j. i < j \<and> j < length (index @ entries) \<and>
     (index @ entries) ! i = (c, p1) \<and> (index @ entries) ! j = (c, p2) \<and>
     insertEntries index entries = Inl (DuplicateColumnMapping c p1 p2)"
proof (induction entries arbitrary: index)
  case Nil
  then show ?case by simp
next
  case (Cons e entries)
  obtain c p where e: "e = (c, p)" by (cases e)
  show ?case
  proof (cases "map_of index c")
    case (Some first)
    then have "(c, first) \<in> set index" by (rule map_of_SomeD)
    then obtain i where i: "i < length index" "index ! i = (c, first)"
      by (auto simp: in_set_conv_nth)
    have "i < length index \<and> length index < length (index @ e # entries) \<and>
        (index @ e # entries) ! i = (c, first) \<and>
        (index @ e # entries) ! length index = (c, p) \<and>
        insertEntries index (e # entries) = Inl (DuplicateColumnMapping c first p)"
      using i Some e by (simp add: nth_append)
    then show ?thesis by blast
  next
    case None
    then have "c \<notin> fst ` set index" by (simp add: map_of_eq_None_iff)
    then have d: "distinct (map fst (index @ [e]))" using Cons.prems(1) e by simp
    have nd: "\<not> distinct (map fst ((index @ [e]) @ entries))" using Cons.prems(2) by simp
    from Cons.IH [OF d nd] show ?thesis using None e by simp
  qed
qed

lemma insertEntries_distinct:
  "distinct (map fst (index @ entries)) \<Longrightarrow> insertEntries index entries = Inr (index @ entries)"
proof (induction entries arbitrary: index)
  case Nil
  then show ?case by simp
next
  case (Cons e entries)
  obtain c p where e: "e = (c, p)" by (cases e)
  have "c \<notin> fst ` set index" using Cons.prems e by auto
  then have n: "map_of index c = None" by (simp add: map_of_eq_None_iff)
  have "distinct (map fst ((index @ [e]) @ entries))" using Cons.prems by simp
  from Cons.IH [OF this] show ?case using n e by simp
qed

lemma bindColumns_not_mapping_error:
  "bindColumns index cs \<noteq> Inl (DuplicateColumnMapping c p1 p2)"
  by (induction cs) (auto split: option.splits sum.splits)

lemma materialize_not_mapping_error:
  "materialize index columns row dst \<noteq> Inl (DuplicateColumnMapping c p1 p2)"
proof (cases "firstDuplicate [] columns")
  case (Some d)
  then show ?thesis by (simp add: materialize_def)
next
  case None
  show ?thesis
  proof (cases dst)
    case (StructDestination ms fs)
    then show ?thesis
      using None bindColumns_not_mapping_error [of index columns c p1 p2]
      by (auto simp: materialize_def split: sum.splits)
  next
    case (MappingDestination m)
    then show ?thesis using None by (simp add: materialize_def)
  next
    case (ScalarDestination x)
    then show ?thesis using None by (simp add: materialize_def split: list.splits)
  qed
qed

text \<open>
  C3. When two members of a struct shape resolve to the same column name, building
  the field index fails with \<open>DuplicateColumnMapping\<close> carrying that column name and
  the access paths (the declaration-order indexes) of two different members that
  resolve to it, the first before the second in declaration order. The error belongs
  to the index construction: the row materializer never returns it. The test case of
  two fields tagged \<^verbatim>\<open>foo_column\<close> gives the indexes \<^verbatim>\<open>[0]\<close> and \<^verbatim>\<open>[1]\<close>.
\<close>

theorem buildFieldIndex_duplicate_mapping:
  "(\<not> distinct (map fst (resolveMembers [] [] 0 ms)) \<longrightarrow>
     (\<exists>c p1 p2 i j. i < j \<and> j < length (resolveMembers [] [] 0 ms) \<and>
        resolveMembers [] [] 0 ms ! i = (c, p1) \<and>
        resolveMembers [] [] 0 ms ! j = (c, p2) \<and> p1 \<noteq> p2 \<and>
        buildFieldIndex ms = Inl (DuplicateColumnMapping c p1 p2))) \<and>
   materialize index columns row dst \<noteq> Inl (DuplicateColumnMapping c' q1 q2) \<and>
   buildFieldIndex [Member ''Foo'' (Some ''foo_column'') True False Leaf,
                    Member ''Bar'' (Some ''foo_column'') True False Leaf]
     = Inl (DuplicateColumnMapping ''foo_column'' [0] [1])"
proof -
  define es where "es = resolveMembers [] [] 0 ms"
  have dup: "\<exists>c p1 p2 i j. i < j \<and> j < length es \<and> es ! i = (c, p1) \<and>
        es ! j = (c, p2) \<and> p1 \<noteq> p2 \<and> buildFieldIndex ms = Inl (DuplicateColumnMapping c p1 p2)"
    if nd: "\<not> distinct (map fst es)"
  proof -
    have e: "distinct (map fst ([] :: fieldIndex))" by simp
    from nd have "\<not> distinct (map fst ([] @ es))" by simp
    from insertEntries_duplicate [OF e this] obtain c p1 p2 i j where
      ij: "i < j" "j < length es" and i: "es ! i = (c, p1)" and j: "es ! j = (c, p2)"
      and r: "insertEntries [] es = Inl (DuplicateColumnMapping c p1 p2)"
      by auto
    have d: "distinct (map snd es)" unfolding es_def by (rule resolve_distinct(1))
    have li: "i < length (map snd es)" and lj: "j < length (map snd es)" using ij by simp_all
    have "map snd es ! i \<noteq> map snd es ! j"
      using nth_eq_iff_index_eq [OF d li lj] ij(1) by simp
    then have ne: "p1 \<noteq> p2" using ij i j by simp
    have b: "buildFieldIndex ms = Inl (DuplicateColumnMapping c p1 p2)"
      using r by (simp add: buildFieldIndex_def es_def)
    show ?thesis
      by (intro exI [of _ c] exI [of _ p1] exI [of _ p2] exI [of _ i] exI [of _ j] conjI)
        (fact ij i j ne b)+
  qed
  have m: "materialize index columns row dst \<noteq> Inl (DuplicateColumnMapping c' q1 q2)"
    by (rule materialize_not_mapping_error)
  have t: "buildFieldIndex [Member ''Foo'' (Some ''foo_column'') True False Leaf,
                    Member ''Bar'' (Some ''foo_column'') True False Leaf]
     = Inl (DuplicateColumnMapping ''foo_column'' [0] [1])"
    by code_simp
  show ?thesis
    unfolding es_def [symmetric]
    by (intro conjI impI dup m t)
qed

section \<open>Properties of access paths and of writing through them\<close>

lemma entered_Some:
  "entered m = Some sub \<Longrightarrow>
   isEmbedded m \<and> (typeOf m = StructType sub \<or> typeOf m = PtrStructType sub)"
  by (cases m rule: entered.cases) (simp_all split: if_splits)

lemma entered_None_conforms:
  "entered m = None \<Longrightarrow> conformsType (isEmbedded m) (typeOf m) x"
  by (cases m rule: entered.cases) (simp_all split: if_splits)

lemma validPath_Cons:
  "validPath ms (k # r) \<longleftrightarrow>
     k < length ms \<and> (case entered (ms ! k) of None \<Rightarrow> r = [] | Some sub \<Rightarrow> validPath sub r)"
  by (cases r) (auto split: option.splits)

lemma conformsFields_nth:
  "conformsFields ms fs \<longleftrightarrow>
     length fs = length ms \<and>
     (\<forall>i<length ms. conformsType (isEmbedded (ms ! i)) (typeOf (ms ! i)) (fs ! i))"
proof (induction ms arbitrary: fs)
  case Nil
  then show ?case by simp
next
  case (Cons m ms)
  obtain name tag exported embedded ty where m: "m = Member name tag exported embedded ty"
    by (cases m)
  show ?case
  proof (cases fs)
    case Nil
    then show ?thesis by (simp add: m)
  next
    case (Cons f rest)
    have "conformsFields (m # ms) fs \<longleftrightarrow> conformsType embedded ty f \<and> conformsFields ms rest"
      by (simp add: m Cons)
    also have "\<dots> \<longleftrightarrow> conformsType embedded ty f \<and> length rest = length ms \<and>
        (\<forall>i<length ms. conformsType (isEmbedded (ms ! i)) (typeOf (ms ! i)) (rest ! i))"
      by (simp add: Cons.IH)
    also have "\<dots> \<longleftrightarrow> length fs = length (m # ms) \<and>
        (\<forall>i<length (m # ms). conformsType (isEmbedded ((m # ms) ! i)) (typeOf ((m # ms) ! i)) (fs ! i))"
      by (auto simp: Cons m nth_Cons split: nat.splits)
    finally show ?thesis .
  qed
qed

lemma conformsFields_update:
  "conformsFields ms fs \<Longrightarrow> i < length ms \<Longrightarrow>
   conformsType (isEmbedded (ms ! i)) (typeOf (ms ! i)) x \<Longrightarrow>
   conformsFields ms (fs[i := x])"
  by (simp add: conformsFields_nth nth_list_update)

lemma conforms_zero:
  "conformsType embedded ty (zeroValue ty :: 'v val)"
  "conformsFields ms (zeroFields ms :: 'v val list)"
  by (induction ty and ms arbitrary: embedded rule: zeroValue_zeroFields.induct) simp_all

lemma entered_cases:
  assumes "conformsFields ms fs" "i < length ms" "entered (ms ! i) = Some sub"
  obtains
    (struct) gs where "typeOf (ms ! i) = StructType sub" "fs ! i = StructVal gs"
      "conformsFields sub gs"
  | (nil) "typeOf (ms ! i) = PtrStructType sub" "fs ! i = NilPtr"
  | (ptr) gs where "typeOf (ms ! i) = PtrStructType sub" "fs ! i = Ptr (StructVal gs)"
      "conformsFields sub gs"
proof -
  from entered_Some [OF assms(3)] have e: "isEmbedded (ms ! i)"
    and t: "typeOf (ms ! i) = StructType sub \<or> typeOf (ms ! i) = PtrStructType sub"
    by simp_all
  from assms(1,2) have c: "conformsType (isEmbedded (ms ! i)) (typeOf (ms ! i)) (fs ! i)"
    by (simp add: conformsFields_nth)
  from t show thesis
  proof
    assume s: "typeOf (ms ! i) = StructType sub"
    with c e obtain gs where "fs ! i = StructVal gs" "conformsFields sub gs"
      by (cases "fs ! i") simp_all
    with s show thesis by (rule struct)
  next
    assume s: "typeOf (ms ! i) = PtrStructType sub"
    show thesis
    proof (cases "fs ! i")
      case NilPtr
      with s show thesis by (rule nil)
    next
      case (Ptr x)
      with c e s obtain gs where "x = StructVal gs" "conformsFields sub gs"
        by (cases x) simp_all
      with s Ptr show thesis using ptr by simp
    qed (use c e s in simp_all)
  qed
qed

lemma writeField_head: "\<exists>y. writeField ms (i # r) v fs = fs[i := y]"
proof (cases r)
  case Nil
  then show ?thesis by auto
next
  case (Cons j p)
  have "writeField ms (i # j # p) v fs = fs \<or> (\<exists>y. writeField ms (i # j # p) v fs = fs[i := y])"
    by (auto split: memberType.splits val.splits)
  moreover have "fs = fs[i := fs ! i]" by simp
  ultimately show ?thesis unfolding Cons by metis
qed

lemma length_writeField: "length (writeField ms p v fs) = length fs"
proof (cases p)
  case Nil
  then show ?thesis by simp
next
  case (Cons i r)
  from writeField_head [of ms i r v fs] obtain y where "writeField ms (i # r) v fs = fs[i := y]"
    by blast
  then show ?thesis by (simp add: Cons)
qed

lemma writeField_other: "k \<noteq> i \<Longrightarrow> writeField ms (i # r) v fs ! k = fs ! k"
proof -
  assume "k \<noteq> i"
  from writeField_head [of ms i r v fs] obtain y where "writeField ms (i # r) v fs = fs[i := y]"
    by blast
  with \<open>k \<noteq> i\<close> show ?thesis by simp
qed

lemma readField_update_other:
  "k \<noteq> i \<Longrightarrow> readField ms (k # r) (fs[i := y]) = readField ms (k # r) fs"
proof -
  assume "k \<noteq> i"
  then have n: "fs[i := y] ! k = fs ! k" by simp
  show ?thesis by (cases r) (simp_all add: n split: memberType.splits)
qed

lemma readField_write_other:
  "k \<noteq> i \<Longrightarrow> readField ms (k # r) (writeField ms (i # r') v fs) = readField ms (k # r) fs"
proof -
  assume "k \<noteq> i"
  from writeField_head [of ms i r' v fs] obtain y where "writeField ms (i # r') v fs = fs[i := y]"
    by blast
  with \<open>k \<noteq> i\<close> show ?thesis by (simp add: readField_update_other)
qed

lemma write_then_read:
  "conformsFields ms fs \<Longrightarrow> validPath ms p \<Longrightarrow>
   readField ms p (writeField ms p v fs) = Some (Scalar v)"
proof (induction ms p arbitrary: fs rule: validPath.induct)
  case (1 ms)
  then show ?case by simp
next
  case (2 ms i)
  then show ?case by (simp add: conformsFields_nth)
next
  case (3 ms i j p)
  from "3.prems"(2) have i: "i < length ms" by simp
  with "3.prems"(1) have l: "i < length fs" by (simp add: conformsFields_nth)
  from "3.prems"(2) obtain sub where e: "entered (ms ! i) = Some sub"
    and v: "validPath sub (j # p)"
    by (auto split: option.splits)
  from "3.prems"(1) i e show ?case
  proof (cases rule: entered_cases)
    case (struct gs)
    have "readField sub (j # p) (writeField sub (j # p) v gs) = Some (Scalar v)"
      using "3.IH" [OF e struct(3) v] .
    then show ?thesis using i l struct by simp
  next
    case nil
    have "readField sub (j # p) (writeField sub (j # p) v (zeroFields sub)) = Some (Scalar v)"
      using "3.IH" [OF e conforms_zero(2) v] .
    then show ?thesis using i l nil by simp
  next
    case (ptr gs)
    have "readField sub (j # p) (writeField sub (j # p) v gs) = Some (Scalar v)"
      using "3.IH" [OF e ptr(3) v] .
    then show ?thesis using i l ptr by simp
  qed
qed

lemma write_conforms:
  "conformsFields ms fs \<Longrightarrow> validPath ms p \<Longrightarrow> conformsFields ms (writeField ms p v fs)"
proof (induction ms p arbitrary: fs rule: validPath.induct)
  case (1 ms)
  then show ?case by simp
next
  case (2 ms i)
  then show ?case by (simp add: conformsFields_update entered_None_conforms)
next
  case (3 ms i j p)
  from "3.prems"(2) have i: "i < length ms" by simp
  with "3.prems"(1) have l: "i < length fs" by (simp add: conformsFields_nth)
  from "3.prems"(2) obtain sub where e: "entered (ms ! i) = Some sub"
    and v: "validPath sub (j # p)"
    by (auto split: option.splits)
  from entered_Some [OF e] have emb: "isEmbedded (ms ! i)" by simp
  from "3.prems"(1) i e show ?case
  proof (cases rule: entered_cases)
    case (struct gs)
    have "conformsFields sub (writeField sub (j # p) v gs)"
      using "3.IH" [OF e struct(3) v] .
    then have "conformsType (isEmbedded (ms ! i)) (typeOf (ms ! i))
        (StructVal (writeField sub (j # p) v gs))"
      using emb struct(1) by simp
    from conformsFields_update [OF "3.prems"(1) i this] show ?thesis
      using i l struct by simp
  next
    case nil
    have "conformsFields sub (writeField sub (j # p) v (zeroFields sub))"
      using "3.IH" [OF e conforms_zero(2) v] .
    then have "conformsType (isEmbedded (ms ! i)) (typeOf (ms ! i))
        (Ptr (StructVal (writeField sub (j # p) v (zeroFields sub))))"
      using emb nil(1) by simp
    from conformsFields_update [OF "3.prems"(1) i this] show ?thesis
      using i l nil by simp
  next
    case (ptr gs)
    have "conformsFields sub (writeField sub (j # p) v gs)"
      using "3.IH" [OF e ptr(3) v] .
    then have "conformsType (isEmbedded (ms ! i)) (typeOf (ms ! i))
        (Ptr (StructVal (writeField sub (j # p) v gs)))"
      using emb ptr(1) by simp
    from conformsFields_update [OF "3.prems"(1) i this] show ?thesis
      using i l ptr by simp
  qed
qed

lemma write_keeps_other:
  "conformsFields ms fs \<Longrightarrow> validPath ms p \<Longrightarrow> validPath ms q \<Longrightarrow> p \<noteq> q \<Longrightarrow>
   readField ms q fs = Some (Scalar x) \<Longrightarrow>
   readField ms q (writeField ms p v fs) = Some (Scalar x)"
proof (induction ms p arbitrary: fs q rule: validPath.induct)
  case (1 ms)
  then show ?case by simp
next
  case (2 ms i)
  from "2.prems"(3) obtain k r where q: "q = k # r" by (cases q) auto
  have "k \<noteq> i"
  proof
    assume "k = i"
    from "2.prems"(2) have "entered (ms ! i) = None" by simp
    with "2.prems"(3) q \<open>k = i\<close> have "r = []" by (simp add: validPath_Cons)
    with "2.prems"(4) q \<open>k = i\<close> show False by simp
  qed
  then show ?case using "2.prems"(5) readField_write_other [of k i ms r "[]" v fs]
    by (simp add: q)
next
  case (3 ms i j p)
  from "3.prems"(3) obtain k r where q: "q = k # r" by (cases q) auto
  show ?case
  proof (cases "k = i")
    case False
    then show ?thesis using "3.prems"(5) readField_write_other [of k i ms r "j # p" v fs]
      by (simp add: q)
  next
    case True
    from "3.prems"(2) have i: "i < length ms" by simp
    with "3.prems"(1) have l: "i < length fs" by (simp add: conformsFields_nth)
    from "3.prems"(2) obtain sub where e: "entered (ms ! i) = Some sub"
      and v: "validPath sub (j # p)"
      by (auto split: option.splits)
    from "3.prems"(3) q True e have vr: "validPath sub r"
      by (simp add: validPath_Cons)
    then obtain j' p' where r: "r = j' # p'" by (cases r) auto
    from "3.prems"(4) q True have ne: "j # p \<noteq> r" by auto
    from "3.prems"(1) i e show ?thesis
    proof (cases rule: entered_cases)
      case (struct gs)
      have rd: "readField sub r gs = Some (Scalar x)"
        using "3.prems"(5) q True r i l struct by simp
      have "readField sub r (writeField sub (j # p) v gs) = Some (Scalar x)"
        using "3.IH" [OF e struct(3) v vr ne rd] .
      then show ?thesis using q True r i l struct by simp
    next
      case nil
      have "readField ms q fs = None" using q True r i l nil by simp
      with "3.prems"(5) show ?thesis by simp
    next
      case (ptr gs)
      have rd: "readField sub r gs = Some (Scalar x)"
        using "3.prems"(5) q True r i l ptr by simp
      have "readField sub r (writeField sub (j # p) v gs) = Some (Scalar x)"
        using "3.IH" [OF e ptr(3) v vr ne rd] .
      then show ?thesis using q True r i l ptr by simp
    qed
  qed
qed

lemma entered_indep:
  "entered (Member name tag exported embedded ty) = entered (Member name' tag' exported' embedded ty)"
  by (cases ty) simp_all

lemma entered_ptr:
  "isEmbedded m \<Longrightarrow> typeOf m = PtrStructType sub \<Longrightarrow> entered m = Some sub"
  by (cases m) simp

lemma resolve_valid:
  "(c, p) \<in> set (resolveMembers prefix path i ms) \<Longrightarrow>
     \<exists>k r. p = path @ (i + k) # r \<and> validPath ms (k # r)"
  "(c, p) \<in> set (resolveMember prefix path i m) \<Longrightarrow>
     \<exists>r. p = path @ i # r \<and>
         (case entered m of None \<Rightarrow> r = [] | Some sub \<Rightarrow> validPath sub r)"
  "(c, p) \<in> set (resolveType prefix path' name tag embedded ty) \<Longrightarrow>
     \<exists>r. p = path' @ r \<and>
         (case entered (Member name tag True embedded ty) of
            None \<Rightarrow> r = []
          | Some sub \<Rightarrow> validPath sub r)"
proof (induction prefix path i ms and prefix path i m and prefix path' name tag embedded ty
    rule: resolveMembers_resolveMember_resolveType.induct)
  case (1 prefix path i)
  then show ?case by simp
next
  case (2 prefix path i m ms)
  from "2.prems" have "(c, p) \<in> set (resolveMember prefix path i m) \<or>
      (c, p) \<in> set (resolveMembers prefix path (Suc i) ms)" by simp
  then show ?case
  proof
    assume "(c, p) \<in> set (resolveMember prefix path i m)"
    from "2.IH"(1) [OF this] obtain r where
      p: "p = path @ i # r"
      and r: "case entered m of None \<Rightarrow> r = [] | Some sub \<Rightarrow> validPath sub r"
      by blast
    have "validPath (m # ms) (0 # r)" using r by (simp add: validPath_Cons)
    with p have "p = path @ (i + 0) # r \<and> validPath (m # ms) (0 # r)" by simp
    then show ?thesis by blast
  next
    assume "(c, p) \<in> set (resolveMembers prefix path (Suc i) ms)"
    from "2.IH"(2) [OF this] obtain k r where
      p: "p = path @ (Suc i + k) # r" and v: "validPath ms (k # r)"
      by blast
    have "validPath (m # ms) (Suc k # r)" using v by (simp add: validPath_Cons)
    with p have "p = path @ (i + Suc k) # r \<and> validPath (m # ms) (Suc k # r)" by simp
    then show ?thesis by blast
  qed
next
  case (3 prefix path i name tag exported embedded ty)
  from "3.prems" have ex: "exported" and tg: "tag \<noteq> Some ''-''"
    and m: "(c, p) \<in> set (resolveType prefix (path @ [i]) name tag embedded ty)"
    by (simp_all split: if_splits)
  from "3.IH" [OF _ tg m] ex obtain r where
    p: "p = (path @ [i]) @ r"
    and r: "case entered (Member name tag True embedded ty) of
            None \<Rightarrow> r = [] | Some sub \<Rightarrow> validPath sub r"
    by auto
  have "entered (Member name tag exported embedded ty) = entered (Member name tag True embedded ty)"
    by (rule entered_indep)
  with p r show ?case by simp
next
  case (4 prefix path name tag embedded)
  then show ?case by simp
next
  case (5 prefix path name tag embedded ms)
  show ?case
  proof (cases embedded)
    case True
    with "5.prems" have "(c, p) \<in> set (resolveMembers (childPrefix prefix tag) path 0 ms)"
      by simp
    from "5.IH" [OF True this] obtain k r where "p = path @ (0 + k) # r" "validPath ms (k # r)"
      by blast
    then show ?thesis using True by simp
  next
    case False
    with "5.prems" show ?thesis by simp
  qed
next
  case (6 prefix path name tag embedded ms)
  show ?case
  proof (cases embedded)
    case True
    with "6.prems" have "(c, p) \<in> set (resolveMembers (childPrefix prefix tag) path 0 ms)"
      by simp
    from "6.IH" [OF True this] obtain k r where "p = path @ (0 + k) # r" "validPath ms (k # r)"
      by blast
    then show ?thesis using True by simp
  next
    case False
    with "6.prems" show ?thesis by simp
  qed
qed

lemma buildFieldIndex_Inr:
  "buildFieldIndex ms = Inr index \<Longrightarrow>
   index = resolveMembers [] [] 0 ms \<and> distinct (map fst index)"
proof -
  assume b: "buildFieldIndex ms = Inr index"
  have e: "distinct (map fst ([] :: fieldIndex))" by simp
  have d: "distinct (map fst (resolveMembers [] [] 0 ms))"
  proof (rule ccontr)
    assume "\<not> distinct (map fst (resolveMembers [] [] 0 ms))"
    then have "\<not> distinct (map fst ([] @ resolveMembers [] [] 0 ms))" by simp
    from insertEntries_duplicate [OF e this] b show False
      by (auto simp: buildFieldIndex_def)
  qed
  then have "distinct (map fst ([] @ resolveMembers [] [] 0 ms))" by simp
  from insertEntries_distinct [OF this] b d show ?thesis
    by (simp add: buildFieldIndex_def)
qed

lemma index_path_valid:
  "buildFieldIndex ms = Inr index \<Longrightarrow> map_of index c = Some p \<Longrightarrow> validPath ms p"
proof -
  assume b: "buildFieldIndex ms = Inr index" and m: "map_of index c = Some p"
  from buildFieldIndex_Inr [OF b] have "index = resolveMembers [] [] 0 ms" by simp
  with map_of_SomeD [OF m] have "(c, p) \<in> set (resolveMembers [] [] 0 ms)" by simp
  from resolve_valid(1) [OF this] show ?thesis by auto
qed

lemma index_path_inj:
  "buildFieldIndex ms = Inr index \<Longrightarrow> map_of index c = Some p \<Longrightarrow>
   map_of index c' = Some p \<Longrightarrow> c = c'"
proof -
  assume b: "buildFieldIndex ms = Inr index" and m: "map_of index c = Some p"
    and m': "map_of index c' = Some p"
  from buildFieldIndex_Inr [OF b] have i: "index = resolveMembers [] [] 0 ms" by simp
  have "distinct (map snd index)" unfolding i by (rule resolve_distinct(1))
  then have inj: "inj_on snd (set index)" by (simp add: distinct_map)
  have a: "(c, p) \<in> set index" and a': "(c', p) \<in> set index"
    using map_of_SomeD [OF m] map_of_SomeD [OF m'] by simp_all
  have "snd (c, p) = snd (c', p)" by simp
  from inj_onD [OF inj this a a'] show ?thesis by simp
qed

lemma bindColumns_Inr:
  "bindColumns index cs = Inr paths \<Longrightarrow> list_all2 (\<lambda>c p. map_of index c = Some p) cs paths"
proof (induction cs arbitrary: paths)
  case Nil
  then show ?case by simp
next
  case (Cons c cs)
  from Cons.prems obtain p ps where "map_of index c = Some p" "bindColumns index cs = Inr ps"
    "paths = p # ps"
    by (auto split: option.splits sum.splits)
  with Cons.IH show ?case by simp
qed

lemma firstDuplicate_None:
  "firstDuplicate [] cs = None \<Longrightarrow> distinct cs"
proof (rule ccontr)
  assume n: "firstDuplicate [] cs = None" and "\<not> distinct cs"
  then have "\<not> distinct ([] @ cs)" by simp
  from firstDuplicate_finds [OF _ this] n show False by auto
qed

lemma writeRow_conforms:
  "conformsFields ms fs \<Longrightarrow> \<forall>b\<in>set bs. validPath ms (fst b) \<Longrightarrow>
   conformsFields ms (writeRow ms bs fs)"
proof (induction bs arbitrary: fs)
  case Nil
  then show ?case by simp
next
  case (Cons b bs)
  obtain p v where b: "b = (p, v)" by (cases b)
  have "conformsFields ms (writeField ms p v fs)"
    using Cons.prems b by (simp add: write_conforms)
  from Cons.IH [OF this] Cons.prems(2) show ?case by (simp add: b)
qed

lemma writeRow_keeps:
  "conformsFields ms fs \<Longrightarrow> \<forall>b\<in>set bs. validPath ms (fst b) \<Longrightarrow> validPath ms q \<Longrightarrow>
   \<forall>b\<in>set bs. fst b \<noteq> q \<Longrightarrow> readField ms q fs = Some (Scalar x) \<Longrightarrow>
   readField ms q (writeRow ms bs fs) = Some (Scalar x)"
proof (induction bs arbitrary: fs)
  case Nil
  then show ?case by simp
next
  case (Cons b bs)
  obtain p v where b: "b = (p, v)" by (cases b)
  have vp: "validPath ms p" and ne: "p \<noteq> q" using Cons.prems(2,4) b by simp_all
  have c: "conformsFields ms (writeField ms p v fs)"
    using Cons.prems(1) vp by (rule write_conforms)
  have r: "readField ms q (writeField ms p v fs) = Some (Scalar x)"
    using Cons.prems(1) vp Cons.prems(3) ne Cons.prems(5) by (rule write_keeps_other)
  from Cons.IH [OF c _ Cons.prems(3) _ r] Cons.prems(2,4) show ?case by (simp add: b)
qed

lemma writeRow_written:
  "conformsFields ms fs \<Longrightarrow> \<forall>b\<in>set bs. validPath ms (fst b) \<Longrightarrow> distinct (map fst bs) \<Longrightarrow>
   (q, x) \<in> set bs \<Longrightarrow> readField ms q (writeRow ms bs fs) = Some (Scalar x)"
proof (induction bs arbitrary: fs)
  case Nil
  then show ?case by simp
next
  case (Cons b bs)
  obtain p v where b: "b = (p, v)" by (cases b)
  have vp: "validPath ms p" using Cons.prems(2) b by simp
  have c: "conformsFields ms (writeField ms p v fs)"
    using Cons.prems(1) vp by (rule write_conforms)
  have vs: "\<forall>b\<in>set bs. validPath ms (fst b)" using Cons.prems(2) by simp
  have ds: "distinct (map fst bs)" using Cons.prems(3) by simp
  show ?case
  proof (cases "(q, x) \<in> set bs")
    case True
    from Cons.IH [OF c vs ds True] show ?thesis by (simp add: b)
  next
    case False
    with Cons.prems(4) b have qx: "q = p" "x = v" by simp_all
    have r: "readField ms q (writeField ms p v fs) = Some (Scalar x)"
      unfolding qx using Cons.prems(1) vp by (rule write_then_read)
    have others: "\<forall>b\<in>set bs. fst b \<noteq> q" using Cons.prems(3) b qx by auto
    have vq: "validPath ms q" using vp qx by simp
    from writeRow_keeps [OF c vs vq others r] show ?thesis by (simp add: b)
  qed
qed

lemma writeRow_untouched:
  "\<forall>b\<in>set bs. \<exists>j r. fst b = j # r \<and> j \<noteq> i \<Longrightarrow> writeRow ms bs fs ! i = fs ! i"
proof (induction bs arbitrary: fs)
  case Nil
  then show ?case by simp
next
  case (Cons b bs)
  obtain p v where b: "b = (p, v)" by (cases b)
  from Cons.prems b obtain j r where p: "p = j # r" and j: "j \<noteq> i" by auto
  have "writeField ms p v fs ! i = fs ! i"
    unfolding p using j by (simp add: writeField_other)
  with Cons.IH [of "writeField ms p v fs"] Cons.prems show ?case by (simp add: b)
qed

lemma materialize_struct_Inr:
  "materialize index columns row (StructDestination ms fs) = Inr dst' \<Longrightarrow>
   \<exists>paths. firstDuplicate [] columns = None \<and> bindColumns index columns = Inr paths \<and>
     length row = length columns \<and>
     dst' = StructDestination ms (writeRow ms (zip paths row) fs)"
  by (auto simp: materialize_def split: option.splits sum.splits if_splits)

lemma materialize_struct_values:
  assumes b: "buildFieldIndex ms = Inr index"
    and c: "conformsFields ms fs"
    and m: "materialize index columns row (StructDestination ms fs) = Inr dst'"
  shows "\<exists>fs'. dst' = StructDestination ms fs' \<and> conformsFields ms fs' \<and>
     (\<forall>k<length columns. \<forall>p. map_of index (columns ! k) = Some p \<longrightarrow>
        readField ms p fs' = Some (Scalar (row ! k))) \<and>
     (\<forall>i. (\<forall>c\<in>set columns. \<forall>rest. map_of index c \<noteq> Some (i # rest)) \<longrightarrow> fs' ! i = fs ! i)"
proof -
  from materialize_struct_Inr [OF m] obtain paths where
    nodup: "firstDuplicate [] columns = None"
    and bind: "bindColumns index columns = Inr paths"
    and len: "length row = length columns"
    and dst': "dst' = StructDestination ms (writeRow ms (zip paths row) fs)"
    by blast
  let ?bs = "zip paths row"
  from bindColumns_Inr [OF bind] have la: "list_all2 (\<lambda>c p. map_of index c = Some p) columns paths" .
  then have lp: "length paths = length columns" by (simp add: list_all2_lengthD)
  have nth: "map_of index (columns ! k) = Some (paths ! k)" if "k < length columns" for k
    using la that by (simp add: list_all2_conv_all_nth)
  have dc: "distinct columns" using nodup by (rule firstDuplicate_None)
  have fst_bs: "map fst ?bs = paths" using lp len by simp
  have valid: "\<forall>b\<in>set ?bs. validPath ms (fst b)"
  proof
    fix e assume "e \<in> set ?bs"
    then have "fst e \<in> set paths" using fst_bs by (metis image_eqI list.set_map)
    then obtain k where k: "k < length paths" "paths ! k = fst e" by (auto simp: in_set_conv_nth)
    with nth [of k] lp have "map_of index (columns ! k) = Some (fst e)" by simp
    then show "validPath ms (fst e)" by (rule index_path_valid [OF b])
  qed
  have dp: "distinct paths"
  proof (subst distinct_conv_nth, intro allI impI)
    fix a c' assume a: "a < length paths" and c': "c' < length paths" and ne: "a \<noteq> c'"
    show "paths ! a \<noteq> paths ! c'"
    proof
      assume eq: "paths ! a = paths ! c'"
      have "map_of index (columns ! a) = Some (paths ! a)" using nth a lp by simp
      moreover have "map_of index (columns ! c') = Some (paths ! a)" using nth c' lp eq by simp
      ultimately have "columns ! a = columns ! c'" by (rule index_path_inj [OF b])
      with dc a c' lp ne show False by (simp add: nth_eq_iff_index_eq)
    qed
  qed
  have conf: "conformsFields ms (writeRow ms ?bs fs)"
    using c valid by (rule writeRow_conforms)
  have vals: "\<forall>k<length columns. \<forall>p. map_of index (columns ! k) = Some p \<longrightarrow>
        readField ms p (writeRow ms ?bs fs) = Some (Scalar (row ! k))"
  proof (intro allI impI)
    fix k p assume k: "k < length columns" and p: "map_of index (columns ! k) = Some p"
    with nth [OF k] have pk: "p = paths ! k" by simp
    have "(paths ! k, row ! k) \<in> set ?bs"
      using k lp len by (metis in_set_zip fst_conv snd_conv)
    then have "(p, row ! k) \<in> set ?bs" by (simp add: pk)
    from writeRow_written [OF c valid _ this] dp fst_bs
    show "readField ms p (writeRow ms ?bs fs) = Some (Scalar (row ! k))" by simp
  qed
  have untouched: "\<forall>i. (\<forall>c\<in>set columns. \<forall>rest. map_of index c \<noteq> Some (i # rest)) \<longrightarrow>
      writeRow ms ?bs fs ! i = fs ! i"
  proof (intro allI impI)
    fix i assume none: "\<forall>c\<in>set columns. \<forall>rest. map_of index c \<noteq> Some (i # rest)"
    have "\<forall>e\<in>set ?bs. \<exists>j r. fst e = j # r \<and> j \<noteq> i"
    proof
      fix e assume e: "e \<in> set ?bs"
      then have "fst e \<in> set paths" using fst_bs by (metis image_eqI list.set_map)
      then obtain k where k: "k < length paths" "paths ! k = fst e"
        by (auto simp: in_set_conv_nth)
      with nth [of k] lp have mk: "map_of index (columns ! k) = Some (fst e)" by simp
      have "validPath ms (fst e)" using valid e by simp
      then obtain j r where jr: "fst e = j # r" by (cases "fst e") auto
      have "columns ! k \<in> set columns" using k lp by simp
      with none mk jr have "j \<noteq> i" by auto
      with jr show "\<exists>j r. fst e = j # r \<and> j \<noteq> i" by blast
    qed
    then show "writeRow ms ?bs fs ! i = fs ! i" by (rule writeRow_untouched)
  qed
  from dst' conf vals untouched show ?thesis by blast
qed

text \<open>
  C4. Take a struct destination with an embedded pointer-to-struct member that is
  nil, an index built for its shape, and a row that materializes. If no column of the
  row maps to an access path through that member, the pointer is still nil afterwards.
  For every column that maps to a path through it, the pointer is non-nil afterwards
  and the field at the rest of the path, in the struct it points to, holds the value
  of that column.
\<close>

theorem materialize_pointer_member:
  assumes "buildFieldIndex ms = Inr index"
    and "conformsFields ms fs"
    and "i < length ms" and "isEmbedded (ms ! i)" and "typeOf (ms ! i) = PtrStructType sub"
    and "fs ! i = NilPtr"
    and "materialize index columns row (StructDestination ms fs) = Inr dst'"
  shows "\<exists>fs'. dst' = StructDestination ms fs' \<and>
     ((\<forall>c\<in>set columns. \<forall>rest. map_of index c \<noteq> Some (i # rest)) \<longrightarrow> fs' ! i = NilPtr) \<and>
     (\<forall>k<length columns. \<forall>rest. map_of index (columns ! k) = Some (i # rest) \<longrightarrow>
        (\<exists>gs. fs' ! i = Ptr (StructVal gs) \<and>
              readField sub rest gs = Some (Scalar (row ! k))))"
proof -
  from materialize_struct_values [OF assms(1,2,7)] obtain fs' where
    dst': "dst' = StructDestination ms fs'"
    and conf: "conformsFields ms fs'"
    and vals: "\<forall>k<length columns. \<forall>p. map_of index (columns ! k) = Some p \<longrightarrow>
        readField ms p fs' = Some (Scalar (row ! k))"
    and untouched: "\<forall>i. (\<forall>c\<in>set columns. \<forall>rest. map_of index c \<noteq> Some (i # rest)) \<longrightarrow>
        fs' ! i = fs ! i"
    by blast
  have e: "entered (ms ! i) = Some sub" using assms(4,5) by (rule entered_ptr)
  have nil: "(\<forall>c\<in>set columns. \<forall>rest. map_of index c \<noteq> Some (i # rest)) \<longrightarrow> fs' ! i = NilPtr"
    using untouched assms(6) by simp
  have filled: "\<forall>k<length columns. \<forall>rest. map_of index (columns ! k) = Some (i # rest) \<longrightarrow>
        (\<exists>gs. fs' ! i = Ptr (StructVal gs) \<and> readField sub rest gs = Some (Scalar (row ! k)))"
  proof (intro allI impI)
    fix k rest
    assume k: "k < length columns" and p: "map_of index (columns ! k) = Some (i # rest)"
    from vals k p have r: "readField ms (i # rest) fs' = Some (Scalar (row ! k))" by simp
    from index_path_valid [OF assms(1) p] e have "validPath sub rest"
      by (simp add: validPath_Cons)
    then obtain j q where rest: "rest = j # q" by (cases rest) auto
    from conf assms(3) e show "\<exists>gs. fs' ! i = Ptr (StructVal gs) \<and>
        readField sub rest gs = Some (Scalar (row ! k))"
    proof (cases rule: entered_cases)
      case (struct gs)
      with assms(5) show ?thesis by simp
    next
      case nil
      with r rest assms(3) conf have False by (simp add: conformsFields_nth)
      then show ?thesis ..
    next
      case (ptr gs)
      with r rest assms(3) conf have "readField sub rest gs = Some (Scalar (row ! k))"
        by (simp add: conformsFields_nth)
      with ptr(2) show ?thesis by simp
    qed
  qed
  from dst' nil filled show ?thesis by blast
qed

section \<open>The cases of the test file, as instances\<close>

theorem RowScanner_starts_once_witness:
  "Started \<lparr>started = True, cache = [(''foo'', [0 :: nat])], startCalls = 1\<rparr> \<and>
   ScanRow start materializeColumns (NewRowScanner [])
     (StructDestination [Member ''Foo'' None True False Leaf] [Zero]) ([''foo''], [''foo val''])
   = (Inr (StructDestination [Member ''Foo'' None True False Leaf] [Scalar ''foo val'']),
      \<lparr>started = True, cache = [(''foo'', [0])], startCalls = 1\<rparr>) \<and>
   ScanRow start materializeColumns \<lparr>started = True, cache = [(''foo'', [0])], startCalls = 1\<rparr>
     (StructDestination [Member ''Foo'' None True False Leaf] [Zero]) ([''foo''], [''foo val 2''])
   = (Inr (StructDestination [Member ''Foo'' None True False Leaf] [Scalar ''foo val 2'']),
      \<lparr>started = True, cache = [(''foo'', [0])], startCalls = 1\<rparr>) \<and>
   ScanRow start materializeColumns \<lparr>started = True, cache = [(''foo'', [0])], startCalls = 1\<rparr>
     (StructDestination [Member ''Foo'' None True False Leaf] [Zero :: string val])
     ([''foo'', ''foo''], [''foo val'', ''bar val''])
   = (Inl (DuplicateColumn ''foo''),
      \<lparr>started = True, cache = [(''foo'', [0])], startCalls = 1\<rparr>) \<and>
   [(StructDestination [Member ''Foo'' None True False Leaf] [Zero], ([''foo''], [''foo val''])),
    (StructDestination [Member ''Foo'' None True False Leaf] [Zero], ([''foo''], [''foo val 2'']))]
     \<noteq> [] \<and>
   startCalls (snd (scanRows start materializeColumns (NewRowScanner [])
     [(StructDestination [Member ''Foo'' None True False Leaf] [Zero], ([''foo''], [''foo val''])),
      (StructDestination [Member ''Foo'' None True False Leaf] [Zero], ([''foo''], [''foo val 2'']))]))
   = 1"
proof -
  let ?dst = "StructDestination [Member ''Foo'' None True False Leaf] [Zero :: string val]"
  let ?rs = "\<lparr>started = True, cache = [(''foo'', [0])], startCalls = 1\<rparr> :: fieldIndex RowScanner"
  have idx: "buildFieldIndex [Member ''Foo'' None True False Leaf] = Inr [(''foo'', [0])]"
    by code_simp
  have s: "Started ?rs" by (simp add: Started_def)
  have first: "ScanRow start materializeColumns (NewRowScanner []) ?dst ([''foo''], [''foo val''])
      = (Inr (StructDestination [Member ''Foo'' None True False Leaf] [Scalar ''foo val'']), ?rs)"
    by (simp add: ScanRow_def NewRowScanner_def start_def idx materializeColumns_def materialize_def)
  have m2: "materializeColumns [(''foo'', [0])] ([''foo''], [''foo val 2'']) ?dst
      = Inr (StructDestination [Member ''Foo'' None True False Leaf] [Scalar ''foo val 2''])"
    by (simp add: materializeColumns_def materialize_def)
  have m3: "materializeColumns [(''foo'', [0])] ([''foo'', ''foo''], [''foo val'', ''bar val'']) ?dst
      = Inl (DuplicateColumn ''foo'')"
    by (simp add: materializeColumns_def materialize_def)
  note t = RowScanner_starts_once [where startFn = start and materializeFn = materializeColumns
      and rs = ?rs and dst = ?dst and c = "[]"]
  from t [where row = "([''foo''], [''foo val 2''])" and rows = "[]"] s m2
  have second: "ScanRow start materializeColumns ?rs ?dst ([''foo''], [''foo val 2''])
      = (Inr (StructDestination [Member ''Foo'' None True False Leaf] [Scalar ''foo val 2'']), ?rs)"
    by simp
  from t [where row = "([''foo'', ''foo''], [''foo val'', ''bar val''])" and rows = "[]"] s m3
  have failing: "ScanRow start materializeColumns ?rs ?dst ([''foo'', ''foo''], [''foo val'', ''bar val''])
      = (Inl (DuplicateColumn ''foo''), ?rs)"
    by simp
  from t [where row = "([''foo''], [''foo val''])"
      and rows = "[(?dst, ([''foo''], [''foo val''])), (?dst, ([''foo''], [''foo val 2'']))]"]
  have run: "startCalls (snd (scanRows start materializeColumns (NewRowScanner [])
      [(?dst, ([''foo''], [''foo val''])), (?dst, ([''foo''], [''foo val 2'']))])) = 1"
    by simp
  from s first second failing run show ?thesis by simp
qed

theorem buildFieldIndex_duplicate_mapping_witness:
  "\<not> distinct (map fst (resolveMembers [] [] 0
      [Member ''FooNested'' None True True (StructType [Member ''FooNested'' None True False Leaf]),
       Member ''Other'' (Some ''foo_nested'') True False Leaf])) \<and>
   buildFieldIndex
      [Member ''FooNested'' None True True (StructType [Member ''FooNested'' None True False Leaf]),
       Member ''Other'' (Some ''foo_nested'') True False Leaf]
   = Inl (DuplicateColumnMapping ''foo_nested'' [0, 0] [1])"
proof -
  let ?ms = "[Member ''FooNested'' None True True (StructType [Member ''FooNested'' None True False Leaf]),
       Member ''Other'' (Some ''foo_nested'') True False Leaf]"
  have es: "resolveMembers [] [] 0 ?ms = [(''foo_nested'', [0, 0]), (''foo_nested'', [1])]"
    by code_simp
  have h: "\<not> distinct (map fst (resolveMembers [] [] 0 ?ms))"
    unfolding es by simp
  have v: "buildFieldIndex ?ms = Inl (DuplicateColumnMapping ''foo_nested'' [0, 0] [1])"
    by code_simp
  note t = buildFieldIndex_duplicate_mapping [of ?ms, THEN conjunct1, rule_format, OF h]
  from t obtain c p1 p2 where
    b: "buildFieldIndex ?ms = Inl (DuplicateColumnMapping c p1 p2)" and ne: "p1 \<noteq> p2"
    by (elim exE conjE) (rule that, assumption+)
  from b v have "p1 = [0, 0]" "p2 = [1]" by simp_all
  with ne h v show ?thesis by (intro conjI)
qed

theorem materialize_duplicate_column_witness:
  "\<not> distinct [''foo'', ''foo''] \<and>
   materialize [(''foo'', [0])] [''foo'', ''foo''] [''foo val'', ''bar val'']
     (StructDestination [Member ''Foo'' None True False Leaf] [Zero])
   = Inl (DuplicateColumn ''foo'') \<and>
   materialize [] [''foo'', ''foo''] [''foo val'', ''bar val''] (MappingDestination Map.empty)
   = Inl (DuplicateColumn ''foo'')"
proof -
  have h: "\<not> distinct [''foo'', ''foo'']" by simp
  have c: "c = ''foo''" if "[''foo'', ''foo''] = pre @ c # post" "c \<in> set pre" for c pre post
  proof -
    from that(2) have "c \<in> set (pre @ c # post)" by simp
    with that(1) show ?thesis by (metis empty_iff empty_set set_ConsD)
  qed
  from materialize_duplicate_column [OF h, of "[(''foo'', [0])]" "[''foo val'', ''bar val'']"
      "StructDestination [Member ''Foo'' None True False Leaf] [Zero]"]
  have a: "materialize [(''foo'', [0])] [''foo'', ''foo''] [''foo val'', ''bar val'']
     (StructDestination [Member ''Foo'' None True False Leaf] [Zero]) = Inl (DuplicateColumn ''foo'')"
    using c by auto
  from materialize_duplicate_column [OF h, of "[]" "[''foo val'', ''bar val'']"
      "MappingDestination Map.empty"]
  have b: "materialize [] [''foo'', ''foo''] [''foo val'', ''bar val''] (MappingDestination Map.empty)
     = Inl (DuplicateColumn ''foo'')"
    using c by auto
  from h a b show ?thesis by simp
qed

theorem materialize_pointer_member_witness:
  "buildFieldIndex
     [Member ''FooNested'' None True True (PtrStructType [Member ''FooNested'' None True False Leaf]),
      Member ''Foo'' None True False Leaf,
      Member ''Bar'' None True False Leaf]
   = Inr [(''foo_nested'', [0, 0]), (''foo'', [1]), (''bar'', [2])] \<and>
   conformsFields
     [Member ''FooNested'' None True True (PtrStructType [Member ''FooNested'' None True False Leaf]),
      Member ''Foo'' None True False Leaf,
      Member ''Bar'' None True False Leaf]
     [NilPtr, Zero :: string val, Zero] \<and>
   materialize [(''foo_nested'', [0, 0]), (''foo'', [1]), (''bar'', [2])]
     [''foo'', ''bar'', ''foo_nested''] [''foo val'', ''bar val'', ''foo nested val'']
     (StructDestination
        [Member ''FooNested'' None True True (PtrStructType [Member ''FooNested'' None True False Leaf]),
         Member ''Foo'' None True False Leaf,
         Member ''Bar'' None True False Leaf]
        [NilPtr, Zero, Zero])
   = Inr (StructDestination
        [Member ''FooNested'' None True True (PtrStructType [Member ''FooNested'' None True False Leaf]),
         Member ''Foo'' None True False Leaf,
         Member ''Bar'' None True False Leaf]
        [Ptr (StructVal [Scalar ''foo nested val'']), Scalar ''foo val'', Scalar ''bar val'']) \<and>
   readField [Member ''FooNested'' None True False Leaf] [0] [Scalar ''foo nested val'']
   = Some (Scalar ''foo nested val'') \<and>
   materialize [(''foo_nested'', [0, 0]), (''foo'', [1]), (''bar'', [2])]
     [''foo'', ''bar''] [''foo val'', ''bar val'']
     (StructDestination
        [Member ''FooNested'' None True True (PtrStructType [Member ''FooNested'' None True False Leaf]),
         Member ''Foo'' None True False Leaf,
         Member ''Bar'' None True False Leaf]
        [NilPtr, Zero, Zero])
   = Inr (StructDestination
        [Member ''FooNested'' None True True (PtrStructType [Member ''FooNested'' None True False Leaf]),
         Member ''Foo'' None True False Leaf,
         Member ''Bar'' None True False Leaf]
        [NilPtr, Scalar ''foo val'', Scalar ''bar val''])"
proof -
  let ?sub = "[Member ''FooNested'' None True False Leaf]"
  let ?ms = "[Member ''FooNested'' None True True (PtrStructType ?sub),
      Member ''Foo'' None True False Leaf,
      Member ''Bar'' None True False Leaf]"
  let ?index = "[(''foo_nested'', [0, 0]), (''foo'', [1]), (''bar'', [2])] :: fieldIndex"
  let ?fs = "[NilPtr, Zero :: string val, Zero]"
  let ?filled = "StructDestination ?ms
      [Ptr (StructVal [Scalar ''foo nested val'']), Scalar ''foo val'', Scalar ''bar val'']"
  let ?unfilled = "StructDestination ?ms [NilPtr, Scalar ''foo val'', Scalar ''bar val'']"
  have b: "buildFieldIndex ?ms = Inr ?index" by code_simp
  have c: "conformsFields ?ms ?fs" by simp
  have i: "(0::nat) < length ?ms" "isEmbedded (?ms ! 0)" "typeOf (?ms ! 0) = PtrStructType ?sub"
    "?fs ! 0 = NilPtr"
    by simp_all
  have m1: "materialize ?index [''foo'', ''bar'', ''foo_nested'']
      [''foo val'', ''bar val'', ''foo nested val''] (StructDestination ?ms ?fs) = Inr ?filled"
    by (simp add: materialize_def)
  have m2: "materialize ?index [''foo'', ''bar''] [''foo val'', ''bar val'']
      (StructDestination ?ms ?fs) = Inr ?unfilled"
    by (simp add: materialize_def)
  from materialize_pointer_member [OF b c i m1] obtain fs' where
    f1: "?filled = StructDestination ?ms fs'"
    and f2: "\<forall>k<length [''foo'', ''bar'', ''foo_nested'']. \<forall>rest.
        map_of ?index ([''foo'', ''bar'', ''foo_nested''] ! k) = Some (0 # rest) \<longrightarrow>
        (\<exists>gs. fs' ! 0 = Ptr (StructVal gs) \<and>
           readField ?sub rest gs = Some (Scalar ([''foo val'', ''bar val'', ''foo nested val''] ! k)))"
    by blast
  from f2 [rule_format, of 2 "[0]"] f1
  have r: "readField ?sub [0] [Scalar ''foo nested val''] = Some (Scalar ''foo nested val'')"
    by simp
  from materialize_pointer_member [OF b c i m2] obtain fs'' where
    "?unfilled = StructDestination ?ms fs''"
    and "(\<forall>c\<in>set [''foo'', ''bar'']. \<forall>rest. map_of ?index c \<noteq> Some (0 # rest)) \<longrightarrow> fs'' ! 0 = NilPtr"
    by blast
  then have "fs'' ! 0 = NilPtr" by simp
  from b c m1 r m2 show ?thesis by simp
qed

end
